theory Spec2Isabelle
  imports Main "HOL-Library.Word"
begin

unbundle bit_operations_syntax

section \<open>Data model\<close>

text \<open>
  A sieve array is a list of bytes.  The \<open>uint64_t\<close> values of \<open>EratSmall.cpp\<close> and the
  pointers into a sieve array are 64-bit words: a pointer is the address it holds, sums and
  products wrap modulo \<open>2 ^ 64\<close>, and pointers are compared as addresses.  The bytes of a
  range handed to a function are a list; the byte at the address \<open>a\<close> of a range that starts
  at the address \<open>sieve\<close> is the element \<open>unat (a - sieve)\<close> of the list.

  In \<open>PreSieve.cpp\<close> the positions in a buffer and in the sieve are indices below the size
  of a vector, and \<open>segmentLow\<close> only enters through \<open>segmentLow % (size * 30) / 30\<close>; they
  are natural numbers.  The parameters of \<open>PreSieve::init\<close> are 64-bit words.
\<close>

type_synonym byte = "8 word"
type_synonym u64 = "64 word"

text \<open>
  What can go wrong in a call: the exception \<open>primesieve_error\<close> with its message, the
  exception of a failed allocation (\<open>std::bad_alloc\<close> or \<open>std::length_error\<close>), an access
  outside the range a pointer points into, and a division by zero.
\<close>

datatype error = primesieve_error string | bad_alloc | OutOfBounds | DivisionByZero

text \<open>
  \<open>SievingPrime\<close> is declared in \<open>Bucket.hpp\<close>, which is not among the sources; the record has
  the three fields that \<open>EratSmall.cpp\<close> reads through \<open>getSievingPrime\<close>,
  \<open>getMultipleIndex\<close> and \<open>getWheelIndex\<close> into \<open>uint64_t\<close> variables and writes through
  \<open>set\<close>; the fields are named after their accessors.  The type of the fields is a
  parameter: it is \<open>u64\<close> in the functions that model the code, and \<open>nat\<close> in the loop on
  unbounded offsets that the proofs compare the code with.
\<close>

record 'a SievingPrime =
  getSievingPrime :: 'a
  getMultipleIndex :: 'a
  getWheelIndex :: 'a

definition set_indexes :: "'a \<Rightarrow> 'a \<Rightarrow> 'a SievingPrime \<Rightarrow> 'a SievingPrime" where
  "set_indexes multipleIndex wheelIndex prime =
     prime\<lparr>getMultipleIndex := multipleIndex, getWheelIndex := wheelIndex\<rparr>"


text \<open>
  The members of \<open>PreSieve\<close>: \<open>maxPrime_\<close>, \<open>totalDist_\<close> and the array \<open>buffers_\<close> of eight
  byte vectors.
\<close>

record PreSieve =
  ps_maxPrime :: u64
  ps_totalDist :: u64
  ps_buffers :: "byte list list"

section \<open>Bit masks and guarded array accesses\<close>

text \<open>
  Modelled from the spec: the masks \<open>BIT0\<close> .. \<open>BIT7\<close> (\<open>bits.hpp\<close> is not among the
  sources) are the bitwise complements of the single bits \<open>1 << 0\<close> .. \<open>1 << 7\<close>.
\<close>

definition BIT :: "nat \<Rightarrow> byte" where
  "BIT n = NOT (push_bit n 1)"

text \<open>\<open>a[i] &= m\<close> and \<open>a[i] = v\<close> for an index \<open>i\<close>, refused outside the array.\<close>

definition and_at :: "byte list \<Rightarrow> nat \<Rightarrow> byte \<Rightarrow> error + byte list" where
  "and_at a i m = (if i < length a then Inr (a[i := a ! i AND m]) else Inl OutOfBounds)"

definition store :: "byte list \<Rightarrow> nat \<Rightarrow> byte \<Rightarrow> error + byte list" where
  "store a i v = (if i < length a then Inr (a[i := v]) else Inl OutOfBounds)"

text \<open>
  \<open>*a &= m\<close> for a pointer \<open>a\<close> into the range from \<open>sieve\<close> up to \<open>sieveEnd\<close> whose bytes
  are \<open>bytes\<close>: refused when \<open>a\<close> does not point into the range.
\<close>

definition and_ptr :: "u64 \<Rightarrow> u64 \<Rightarrow> byte list \<Rightarrow> u64 \<Rightarrow> byte \<Rightarrow> error + byte list" where
  "and_ptr sieve sieveEnd bytes a m =
     (if sieve \<le> a \<and> a < sieveEnd \<and> unat (a - sieve) < length bytes
      then Inr (bytes[unat (a - sieve) := bytes ! unat (a - sieve) AND m])
      else Inl OutOfBounds)"

text \<open>
  \<open>std::copy_n(&src[first], count, &dst[result])\<close>: \<open>count\<close> bytes are read from \<open>first\<close> on
  and written from \<open>result\<close> on.
\<close>

definition copy_n :: "byte list \<Rightarrow> nat \<Rightarrow> nat \<Rightarrow> byte list \<Rightarrow> nat \<Rightarrow> error + byte list" where
  "copy_n src first count dst result =
     (if first + count \<le> length src \<and> result + count \<le> length dst
      then Inr (take result dst @ take count (drop first src) @ drop (result + count) dst)
      else Inl OutOfBounds)"

section \<open>EratSmall\<close>





subsection \<open>The strike tables of crossOff\<close>



text \<open>
  One entry per \<open>case\<close> label of the \<open>switch\<close> in \<open>crossOff\<close>, in the order of the labels
  0 .. 63: the line \<open>*p &= BITb; p += sievingPrime * m + c;\<close> of the label is the entry
  \<open>(b, m, c)\<close>.
\<close>

definition strikes :: "(nat \<times> nat \<times> nat) list" where
  "strikes = [
   (0, 6, 1), (4, 4, 1), (3, 2, 0), (7, 4, 1), (6, 2, 1), (2, 4, 1), (1, 6, 1), (5, 2, 1),
   (1, 6, 2), (3, 4, 1), (7, 2, 1), (5, 4, 2), (0, 2, 0), (6, 4, 2), (2, 6, 2), (4, 2, 1),
   (2, 6, 2), (7, 4, 2), (5, 2, 1), (4, 4, 2), (1, 2, 1), (0, 4, 1), (6, 6, 3), (3, 2, 1),
   (3, 6, 3), (6, 4, 3), (0, 2, 1), (1, 4, 2), (4, 2, 1), (5, 4, 2), (7, 6, 4), (2, 2, 1),
   (4, 6, 4), (2, 4, 2), (6, 2, 2), (0, 4, 2), (5, 2, 1), (7, 4, 3), (3, 6, 4), (1, 2, 1),
   (5, 6, 5), (1, 4, 3), (2, 2, 1), (6, 4, 3), (7, 2, 2), (3, 4, 3), (4, 6, 5), (0, 2, 1),
   (6, 6, 6), (5, 4, 4), (4, 2, 2), (3, 4, 4), (2, 2, 2), (1, 4, 4), (0, 6, 5), (7, 2, 2),
   (7, 6, 1), (0, 4, 0), (1, 2, 0), (2, 4, 0), (3, 2, 0), (4, 4, 0), (5, 6, 0), (6, 2, 0)]"

text \<open>
  One entry per \<open>for (;;)\<close> block, in the order of the blocks: the eight lines
  \<open>p[sievingPrime * m + c] &= BITb;\<close> of its unrolled loop as entries \<open>(m, c, b)\<close>, and the
  constant \<open>r\<close> of the increment \<open>p += sievingPrime * 30 + r\<close> of that loop.
\<close>

definition unrolled :: "((nat \<times> nat \<times> nat) list \<times> nat) list" where
  "unrolled = [
   ([(0, 0, 0), (6, 1, 4), (10, 2, 3), (12, 2, 7), (16, 3, 6), (18, 4, 2), (22, 5, 1), (28, 6, 5)], 7),
   ([(0, 0, 1), (6, 2, 3), (10, 3, 7), (12, 4, 5), (16, 6, 0), (18, 6, 6), (22, 8, 2), (28, 10, 4)], 11),
   ([(0, 0, 2), (6, 2, 7), (10, 4, 5), (12, 5, 4), (16, 7, 1), (18, 8, 0), (22, 9, 6), (28, 12, 3)], 13),
   ([(0, 0, 3), (6, 3, 6), (10, 6, 0), (12, 7, 1), (16, 9, 4), (18, 10, 5), (22, 12, 7), (28, 16, 2)], 17),
   ([(0, 0, 4), (6, 4, 2), (10, 6, 6), (12, 8, 0), (16, 10, 5), (18, 11, 7), (22, 14, 3), (28, 18, 1)], 19),
   ([(0, 0, 5), (6, 5, 1), (10, 8, 2), (12, 9, 6), (16, 12, 7), (18, 14, 3), (22, 17, 4), (28, 22, 0)], 23),
   ([(0, 0, 6), (6, 6, 5), (10, 10, 4), (12, 12, 3), (16, 16, 2), (18, 18, 1), (22, 22, 0), (28, 27, 7)], 29),
   ([(0, 0, 7), (6, 1, 0), (10, 1, 1), (12, 1, 2), (16, 1, 3), (18, 1, 4), (22, 1, 5), (28, 1, 6)], 1)]"

text \<open>
  The body of an unrolled loop: its writes \<open>p[sievingPrime * m + c] &= BITb\<close> in turn, none
  of them checked by the code.
\<close>

fun unrolledBody ::
  "(nat \<times> nat \<times> nat) list \<Rightarrow> u64 \<Rightarrow> u64 \<Rightarrow> u64 \<Rightarrow> u64 \<Rightarrow> byte list \<Rightarrow> error + byte list"
where
  "unrolledBody [] sievingPrime sieve sieveEnd p bytes = Inr bytes"
| "unrolledBody ((m, c, b) # rows) sievingPrime sieve sieveEnd p bytes =
     (case and_ptr sieve sieveEnd bytes (p + (sievingPrime * of_nat m + of_nat c)) (BIT b) of
        Inl e \<Rightarrow> Inl e
      | Inr bytes' \<Rightarrow> unrolledBody rows sievingPrime sieve sieveEnd p bytes')"

text \<open>The label that control falls through to: the next one, and from the last label of a
  \<open>for (;;)\<close> block back to its first.\<close>

definition nextLabel :: "nat \<Rightarrow> nat" where
  "nextLabel label = (if label mod 8 = 7 then label - 7 else label + 1)"

text \<open>
  The \<open>switch\<close> of \<open>crossOff\<close> for one sieving prime, entered at the label
  \<open>wheelIndex & 63\<close>.  \<open>sieve\<close> and \<open>sieveEnd\<close> are the two pointers of the call, \<open>bytes\<close> the
  bytes between them, \<open>p\<close> and \<open>loopEnd\<close> the pointers of these names.  At the first label of
  a block the unrolled loop runs while \<open>p < loopEnd\<close>; then each label tests
  \<open>CHECK_FINISHED\<close>, which saves \<open>p - sieveEnd\<close> and the label and leaves, clears its bit and
  advances \<open>p\<close>.  The result is the bytes, the saved \<open>multipleIndex\<close> and the saved
  \<open>wheelIndex\<close>; a run that does not return is \<open>None\<close>.
\<close>

partial_function (option) strikeLoop ::
  "u64 \<Rightarrow> u64 \<Rightarrow> u64 \<Rightarrow> u64 \<Rightarrow> u64 \<Rightarrow> u64 \<Rightarrow> byte list
     \<Rightarrow> (error + (byte list \<times> u64 \<times> u64)) option"
where
  "strikeLoop sievingPrime sieve sieveEnd loopEnd p wheelIndex bytes =
     (let label = unat (wheelIndex AND 63) in
      if label mod 8 = 0 \<and> p < loopEnd then
        (case unrolledBody (fst (unrolled ! (label div 8))) sievingPrime sieve sieveEnd p bytes of
           Inl e \<Rightarrow> Some (Inl e)
         | Inr bytes' \<Rightarrow>
             strikeLoop sievingPrime sieve sieveEnd loopEnd
               (p + (sievingPrime * 30 + of_nat (snd (unrolled ! (label div 8)))))
               (of_nat label) bytes')
      else if p \<ge> sieveEnd then Some (Inr (bytes, p - sieveEnd, of_nat label))
      else
        (case strikes ! label of (b, m, c) \<Rightarrow>
           (case and_ptr sieve sieveEnd bytes p (BIT b) of
              Inl e \<Rightarrow> Some (Inl e)
            | Inr bytes' \<Rightarrow>
                strikeLoop sievingPrime sieve sieveEnd loopEnd
                  (p + (sievingPrime * of_nat m + of_nat c))
                  (of_nat (nextLabel label)) bytes')))"

text \<open>
  \<open>EratSmall::crossOff(uint8_t* sieve, uint8_t* sieveEnd)\<close>: the loop over \<open>primes_\<close>.  Each
  prime strikes in the bytes left by the primes before it, and \<open>prime.set\<close> stores what
  \<open>CHECK_FINISHED\<close> saved.  The result is the bytes and the updated primes.
\<close>

fun crossOff_range ::
  "u64 SievingPrime list \<Rightarrow> u64 \<Rightarrow> u64 \<Rightarrow> byte list
     \<Rightarrow> (error + (byte list \<times> u64 SievingPrime list)) option"
where
  "crossOff_range [] sieve sieveEnd bytes = Some (Inr (bytes, []))"
| "crossOff_range (prime # primes) sieve sieveEnd bytes =
     (let sievingPrime = getSievingPrime prime;
          multipleIndex = getMultipleIndex prime;
          wheelIndex = getWheelIndex prime;
          maxLoopDist = sievingPrime * 28 + 27;
          loopEnd = max sieveEnd (sieve + maxLoopDist) - maxLoopDist;
          p = sieve + multipleIndex
      in case strikeLoop sievingPrime sieve sieveEnd loopEnd p wheelIndex bytes of
           None \<Rightarrow> None
         | Some (Inl e) \<Rightarrow> Some (Inl e)
         | Some (Inr (bytes', multipleIndex', wheelIndex')) \<Rightarrow>
             (case crossOff_range primes sieve sieveEnd bytes' of
                None \<Rightarrow> None
              | Some (Inl e) \<Rightarrow> Some (Inl e)
              | Some (Inr (bytes'', primes')) \<Rightarrow>
                  Some (Inr (bytes'', set_indexes multipleIndex' wheelIndex' prime # primes'))))"



subsection \<open>Wheel::addSievingPrime\<close>




section \<open>PreSieve\<close>

text \<open>The static table \<open>buffer_7_11_13\<close>.\<close>

definition buffer_7_11_13 :: "byte list" where
  "buffer_7_11_13 = [
   0xf8, 0xef, 0x77, 0x3f, 0xdb, 0xed, 0x9e, 0xfc, 0xea, 0x37,
   0xaf, 0xf9, 0xf5, 0xd3, 0x7e, 0x4f, 0x77, 0x9e, 0xeb, 0xf9,
   0xdd, 0xee, 0xad, 0x77, 0xb7, 0x73, 0xd9, 0xdf, 0x3e, 0xef,
   0x53, 0xaf, 0xeb, 0xfd, 0xde, 0xb6, 0x6f, 0x57, 0xb7, 0xba,
   0xfd, 0x5b, 0xfe, 0xcf, 0x65, 0xbf, 0xf1, 0x7c, 0x9f, 0xfe,
   0xae, 0x77, 0xbb, 0xfb, 0x6d, 0xdd, 0xde, 0xe7, 0x77, 0x9d,
   0xfa, 0xbc, 0xdf, 0xfa, 0xe7, 0x63, 0xbd, 0x7b, 0xf5, 0x5f,
   0xce, 0xef, 0x34, 0xbe, 0xbb, 0xfd, 0xcf, 0xf4, 0xeb, 0x77,
   0x3f, 0xdb, 0xdd, 0x8e, 0xfe, 0xe9, 0x76, 0xaf, 0xf9, 0xfd,
   0xd7, 0x7a, 0xcf, 0x77, 0xbe, 0xdb, 0xe9, 0xdf, 0xec, 0xec,
   0x37, 0xb7, 0x7b, 0xd5, 0xdb, 0xbe, 0x6f, 0x73, 0x9f, 0xeb,
   0xfd, 0xdd, 0xf6, 0x2f, 0x57, 0xbf, 0xb2, 0xf9, 0xdb, 0x7e,
   0xef, 0x55, 0xaf, 0xf3, 0x7d, 0xde, 0xbe, 0xae, 0x77, 0xb3,
   0xfb, 0xed, 0x5d, 0xfe, 0xc7, 0x67, 0x9f, 0xf9, 0xbc, 0x9f,
   0xfa, 0xef, 0x67, 0xb9, 0xfb, 0x75, 0x5f, 0xde, 0xef, 0x36,
   0xbd, 0xfa, 0xbd, 0xcf, 0xfc, 0xe7, 0x73, 0x3f, 0x5b, 0xfd,
   0x9e, 0xee, 0xeb, 0x75, 0xae, 0xb9, 0xfd, 0xd7, 0x76, 0xcb,
   0x77, 0x3e, 0xfb, 0xd9, 0xcf, 0xee, 0xed, 0x76, 0xb7, 0x7b,
   0xdd, 0xd7, 0xba, 0xef, 0x73, 0xbf, 0xcb, 0xed, 0xdf, 0xf4,
   0x6e, 0x17, 0xbf, 0xba, 0xf5, 0xdb, 0xfe, 0x6f, 0x75, 0x9f,
   0xe3, 0x7d, 0xdd, 0xfe, 0xae, 0x77, 0xbb, 0xf3, 0xe9, 0xdd,
   0x7e, 0xe7, 0x57, 0x8f, 0xfb, 0xbc, 0xde, 0xba, 0xef, 0x67,
   0xb5, 0xfb, 0xf5, 0x5f, 0xde, 0xcf, 0x26, 0xbf, 0xf9, 0xfc,
   0x8f, 0xfc, 0xef, 0x77, 0x3b, 0xdb, 0x7d, 0x9e, 0xde, 0xeb,
   0x77, 0xad, 0xf8, 0xbd, 0xd7, 0x7e, 0xc7, 0x73, 0xbe, 0x7b,
   0xf9, 0xdf, 0xee, 0xed, 0x75, 0xb6, 0x3b, 0xdd, 0xdf, 0xb6,
   0xeb, 0x73, 0x3f, 0xeb, 0xdd, 0xcf, 0xf6, 0x6d, 0x56, 0xbf,
   0xba, 0xfd, 0xd3, 0xfa, 0xef, 0x75, 0xbf, 0xd3, 0x6d, 0xdf,
   0xfc, 0xae, 0x37, 0xbb, 0xfb, 0xe5, 0xd9, 0xfe, 0x67, 0x77,
   0x9f, 0xeb, 0xbc, 0xdd, 0xfa, 0xaf, 0x67, 0xbd, 0xf3, 0xf1,
   0x5f, 0x5e, 0xef, 0x16, 0xaf, 0xfb, 0xfd, 0xce, 0xbc, 0xef,
   0x77, 0x37, 0xdb, 0xfd, 0x1e, 0xfe, 0xcb, 0x67, 0xaf, 0xf9,
   0xfc, 0x97, 0x7e, 0xcf, 0x77, 0xba, 0xfb, 0x79, 0xdf, 0xce,
   0xed, 0x77, 0xb5, 0x7a, 0x9d, 0xdf, 0xbe, 0xe7, 0x73, 0xbf,
   0x6b, 0xfd, 0xdf, 0xe6, 0x6f, 0x55, 0xbe, 0xba, 0xfd, 0xdb,
   0xf6, 0xeb, 0x75, 0x3f, 0xf3, 0x5d, 0xcf, 0xfe, 0xac, 0x76,
   0xbb, 0xfb, 0xed, 0xd5, 0xfa, 0xe7, 0x77, 0x9f, 0xdb, 0xac,
   0xdf, 0xf8, 0xee, 0x27, 0xbd, 0xfb, 0xf5, 0x5b, 0xde, 0x6f,
   0x36, 0x9f, 0xeb, 0xfd, 0xcd, 0xfc, 0xaf, 0x77, 0x3f, 0xd3,
   0xf9, 0x9e, 0x7e, 0xeb, 0x57, 0xaf, 0xf9, 0xfd, 0xd6, 0x3e,
   0xcf, 0x77, 0xb6, 0xfb, 0xf9, 0x5f, 0xee, 0xcd, 0x67, 0xb7,
   0x79, 0xdc, 0x9f, 0xbe, 0xef, 0x73, 0xbb, 0xeb, 0x7d, 0xdf,
   0xd6, 0x6f, 0x57, 0xbd, 0xba, 0xbd, 0xdb, 0xfe, 0xe7, 0x71,
   0xbf, 0x73, 0x7d, 0xdf, 0xee, 0xae, 0x75, 0xba, 0xbb, 0xed,
   0xdd, 0xf6, 0xe3, 0x77, 0x1f, 0xfb, 0x9c, 0xcf, 0xfa, 0xed,
   0x66, 0xbd, 0xfb, 0xf5, 0x57, 0xda, 0xef, 0x36, 0xbf, 0xdb,
   0xed, 0xcf, 0xfc, 0xee, 0x37, 0x3f, 0xdb, 0xf5, 0x9a, 0xfe,
   0x6b, 0x77, 0x8f, 0xe9, 0xfd, 0xd5, 0x7e, 0x8f, 0x77, 0xbe,
   0xf3, 0xf9, 0xdf, 0x6e, 0xed, 0x57, 0xa7, 0x7b, 0xdd, 0xde,
   0xbe, 0xef, 0x73, 0xb7, 0xeb, 0xfd, 0x5f, 0xf6, 0x4f, 0x47,
   0xbf, 0xb8, 0xfc, 0x9b, 0xfe, 0xef, 0x75, 0xbb, 0xf3, 0x7d,
   0xdf, 0xde, 0xae, 0x77, 0xb9, 0xfa, 0xad, 0xdd, 0xfe, 0xe7,
   0x73, 0x9f, 0x7b, 0xbc, 0xdf, 0xea, 0xef, 0x65, 0xbc, 0xbb,
   0xf5, 0x5f, 0xd6, 0xeb, 0x36, 0x3f, 0xfb, 0xdd, 0xcf, 0xfc,
   0xed, 0x76, 0x3f, 0xdb, 0xfd, 0x96, 0xfa, 0xeb, 0x77, 0xaf,
   0xd9, 0xed, 0xd7, 0x7c, 0xce, 0x37, 0xbe, 0xfb, 0xf1, 0xdb,
   0xee, 0x6d, 0x77, 0x97, 0x6b, 0xdd, 0xdd, 0xbe, 0xaf, 0x73,
   0xbf, 0xe3, 0xf9, 0xdf, 0x76, 0x6f, 0x57, 0xaf, 0xba, 0xfd,
   0xda, 0xbe, 0xef, 0x75, 0xb7, 0xf3, 0x7d, 0x5f, 0xfe, 0x8e,
   0x67, 0xbb, 0xf9, 0xec, 0x9d, 0xfe, 0xe7, 0x77, 0x9b, 0xfb,
   0x3c, 0xdf, 0xda, 0xef, 0x67, 0xbd, 0xfa, 0xb5, 0x5f, 0xde,
   0xe7, 0x32, 0xbf, 0x7b, 0xfd, 0xcf, 0xec, 0xef, 0x75, 0x3e,
   0x9b, 0xfd, 0x9e, 0xf6, 0xeb, 0x77, 0x2f, 0xf9, 0xdd, 0xc7,
   0x7e, 0xcd, 0x76, 0xbe, 0xfb, 0xf9, 0xd7, 0xea, 0xed, 0x77,
   0xb7, 0x5b, 0xcd, 0xdf, 0xbc, 0xee, 0x33, 0xbf, 0xeb, 0xf5,
   0xdb, 0xf6, 0x6f, 0x57, 0x9f, 0xaa, 0xfd, 0xd9, 0xfe, 0xaf,
   0x75, 0xbf, 0xf3, 0x79, 0xdf, 0x7e, 0xae, 0x57, 0xab, 0xfb,
   0xed, 0xdc, 0xbe, 0xe7, 0x77, 0x97, 0xfb, 0xbc, 0x5f, 0xfa,
   0xcf, 0x67, 0xbd, 0xf9, 0xf4, 0x1f, 0xde, 0xef, 0x36, 0xbb,
   0xfb, 0x7d, 0xcf, 0xdc, 0xef, 0x77, 0x3d, 0xda, 0xbd, 0x9e,
   0xfe, 0xe3, 0x73, 0xaf, 0x79, 0xfd, 0xd7, 0x6e, 0xcf, 0x75,
   0xbe, 0xbb, 0xf9, 0xdf, 0xe6, 0xe9, 0x77, 0x37, 0x7b, 0xdd,
   0xcf, 0xbe, 0xed, 0x72, 0xbf, 0xeb, 0xfd, 0xd7, 0xf2, 0x6f,
   0x57, 0xbf, 0x9a, 0xed, 0xdb, 0xfc, 0xee, 0x35, 0xbf, 0xf3,
   0x75, 0xdb, 0xfe, 0x2e, 0x77, 0x9b, 0xeb, 0xed, 0xdd, 0xfe,
   0xa7, 0x77, 0x9f, 0xf3, 0xb8, 0xdf, 0x7a, 0xef, 0x47, 0xad,
   0xfb, 0xf5, 0x5e, 0x9e, 0xef, 0x36, 0xb7, 0xfb, 0xfd, 0x4f,
   0xfc, 0xcf, 0x67, 0x3f, 0xd9, 0xfc, 0x9e, 0xfe, 0xeb, 0x77,
   0xab, 0xf9, 0x7d, 0xd7, 0x5e, 0xcf, 0x77, 0xbc, 0xfa, 0xb9,
   0xdf, 0xee, 0xe5, 0x73, 0xb7, 0x7b, 0xdd, 0xdf, 0xae, 0xef,
   0x71, 0xbe, 0xab, 0xfd, 0xdf, 0xf6, 0x6b, 0x57, 0x3f, 0xba,
   0xdd, 0xcb, 0xfe, 0xed, 0x74, 0xbf, 0xf3, 0x7d, 0xd7, 0xfa,
   0xae, 0x77, 0xbb, 0xdb, 0xed, 0xdd, 0xfc, 0xe6, 0x37, 0x9f,
   0xfb, 0xb4, 0xdb, 0xfa, 0x6f, 0x67, 0x9d, 0xeb, 0xf5, 0x5d,
   0xde, 0xaf, 0x36, 0xbf, 0xf3, 0xf9, 0xcf, 0x7c, 0xef, 0x57,
   0x2f, 0xdb, 0xfd, 0x9e, 0xbe, 0xeb, 0x77, 0xa7, 0xf9, 0xfd,
   0x57, 0x7e, 0xcf, 0x67, 0xbe, 0xf9, 0xf8, 0x9f, 0xee, 0xed,
   0x77, 0xb3, 0x7b, 0x5d, 0xdf, 0x9e, 0xef, 0x73, 0xbd, 0xea,
   0xbd, 0xdf, 0xf6, 0x67, 0x53, 0xbf, 0x3a, 0xfd, 0xdb, 0xee,
   0xef, 0x75, 0xbe, 0xb3, 0x7d, 0xdf, 0xf6, 0xaa, 0x77, 0x3b,
   0xfb, 0xcd, 0xcd, 0xfe, 0xe5, 0x76, 0x9f, 0xfb, 0xbc, 0xd7,
   0xfa, 0xef, 0x67, 0xbd, 0xdb, 0xe5, 0x5f, 0xdc, 0xee, 0x36,
   0xbf, 0xfb, 0xf5, 0xcb, 0xfc, 0x6f, 0x77, 0x1f, 0xcb, 0xfd,
   0x9c, 0xfe, 0xab, 0x77, 0xaf, 0xf1, 0xf9, 0xd7, 0x7e, 0xcf,
   0x57, 0xae, 0xfb, 0xf9, 0xde, 0xae, 0xed, 0x77, 0xb7, 0x7b,
   0xdd, 0x5f, 0xbe, 0xcf, 0x63, 0xbf, 0xe9, 0xfc, 0x9f, 0xf6,
   0x6f, 0x57, 0xbb, 0xba, 0x7d, 0xdb, 0xde, 0xef, 0x75, 0xbd,
   0xf2, 0x3d, 0xdf, 0xfe, 0xa6, 0x73, 0xbb, 0x7b, 0xed, 0xdd,
   0xee, 0xe7, 0x75, 0x9e, 0xbb, 0xbc, 0xdf, 0xf2, 0xeb, 0x67,
   0x3d, 0xfb, 0xd5, 0x4f, 0xde, 0xed, 0x36, 0xbf, 0xfb, 0xfd,
   0xc7]"



text \<open>
  \<open>andBuffers\<close>.  A pointer into a buffer is the part of the buffer from the pointer on;
  the output pointer is the sieve and the offset into it.
\<close>

definition andBuffers ::
  "byte list \<Rightarrow> byte list \<Rightarrow> byte list \<Rightarrow> byte list \<Rightarrow> byte list \<Rightarrow> byte list \<Rightarrow> byte list
     \<Rightarrow> byte list \<Rightarrow> byte list \<Rightarrow> nat \<Rightarrow> nat \<Rightarrow> error + byte list"
where
  "andBuffers buf1 buf2 buf3 buf4 buf5 buf6 buf7 buf8 sieve offset bytes =
     (if bytes \<le> length buf1 \<and> bytes \<le> length buf2 \<and> bytes \<le> length buf3 \<and>
         bytes \<le> length buf4 \<and> bytes \<le> length buf5 \<and> bytes \<le> length buf6 \<and>
         bytes \<le> length buf7 \<and> bytes \<le> length buf8 \<and> offset + bytes \<le> length sieve
      then Inr (take offset sieve @
                map (\<lambda>i. buf1 ! i AND buf2 ! i AND buf3 ! i AND buf4 ! i
                         AND buf5 ! i AND buf6 ! i AND buf7 ! i AND buf8 ! i) [0..<bytes] @
                drop (offset + bytes) sieve)
      else Inl OutOfBounds)"


text \<open>
  \<open>PreSieve::preSieveSmall\<close>.  First its \<open>for\<close> loop, which copies the whole table as long as
  more than a table's length of the sieve remains; the result is the sieve and the final
  value of \<open>i\<close>.
\<close>

lemma buffer_7_11_13_size: "length buffer_7_11_13 = 1001"
  by (simp add: buffer_7_11_13_def)

lemma copy_n_length: "copy_n src first count dst result = Inr dst' \<Longrightarrow> length dst' = length dst"
  by (auto simp: copy_n_def split: if_splits)

function preSieveSmall_loop :: "nat \<Rightarrow> byte list \<Rightarrow> error + (byte list \<times> nat)" where
  "preSieveSmall_loop i sieve =
     (let size = length buffer_7_11_13 in
      if i + size < length sieve then
        (case copy_n buffer_7_11_13 0 size sieve i of
           Inl e \<Rightarrow> Inl e
         | Inr sieve' \<Rightarrow> preSieveSmall_loop (i + size) sieve')
      else Inr (sieve, i))"
  by pat_completeness auto

termination preSieveSmall_loop
  by (relation "measure (\<lambda>(i, sieve). length sieve - i)")
     (auto simp: buffer_7_11_13_size dest: copy_n_length)

definition preSieveSmall :: "byte list \<Rightarrow> nat \<Rightarrow> error + byte list" where
  "preSieveSmall sieve segmentLow =
     (let size = length buffer_7_11_13;
          primeProduct = size * 30;
          i = (segmentLow mod primeProduct) div 30;
          sizeLeft = size - i
      in if length sieve \<le> sizeLeft
         then copy_n buffer_7_11_13 i (length sieve) sieve 0
         else
           (case copy_n buffer_7_11_13 i sizeLeft sieve 0 of
              Inl e \<Rightarrow> Inl e
            | Inr sieve1 \<Rightarrow>
                (case preSieveSmall_loop sizeLeft sieve1 of
                   Inl e \<Rightarrow> Inl e
                 | Inr (sieve2, i') \<Rightarrow>
                     copy_n buffer_7_11_13 0 (length sieve2 - i') sieve2 i')))"

text \<open>
  \<open>PreSieve::preSieveLarge\<close>.  First its \<open>while\<close> loop, on the eight buffers, \<open>offset\<close>, the
  eight cursors \<open>pos\<close> and the sieve.  A state in which the loop does not return gives
  \<open>None\<close>.
\<close>

partial_function (option) preSieveLarge_loop ::
  "byte list list \<Rightarrow> nat \<Rightarrow> nat list \<Rightarrow> byte list \<Rightarrow> (error + byte list) option"
where
  "preSieveLarge_loop buffers offset pos sieve =
     (if offset < length sieve then
        (let bytesToCopy =
               fold (\<lambda>i bytesToCopy. min (length (buffers ! i) - pos ! i) bytesToCopy)
                 [0..<8] (length sieve - offset)
         in case andBuffers (drop (pos ! 0) (buffers ! 0)) (drop (pos ! 1) (buffers ! 1))
                   (drop (pos ! 2) (buffers ! 2)) (drop (pos ! 3) (buffers ! 3))
                   (drop (pos ! 4) (buffers ! 4)) (drop (pos ! 5) (buffers ! 5))
                   (drop (pos ! 6) (buffers ! 6)) (drop (pos ! 7) (buffers ! 7))
                   sieve offset bytesToCopy of
              Inl e \<Rightarrow> Some (Inl e)
            | Inr sieve' \<Rightarrow>
                preSieveLarge_loop buffers (offset + bytesToCopy)
                  (map (\<lambda>i. if pos ! i + bytesToCopy \<ge> length (buffers ! i) then 0
                             else pos ! i + bytesToCopy) [0..<8])
                  sieve')
      else Some (Inr sieve))"

definition preSieveLarge :: "PreSieve \<Rightarrow> byte list \<Rightarrow> nat \<Rightarrow> (error + byte list) option" where
  "preSieveLarge s sieve segmentLow =
     (if list_ex (\<lambda>i. length (ps_buffers s ! i) * 30 = 0) [0..<8]
      then Some (Inl DivisionByZero)
      else
        preSieveLarge_loop (ps_buffers s) 0
          (map (\<lambda>i. (segmentLow mod (length (ps_buffers s ! i) * 30)) div 30) [0..<8])
          sieve)"

text \<open>
  \<open>PreSieve::preSieve\<close>.  \<open>reset c v\<close> is one of the four statements
  \<open>if (c) sieve[i++] = v;\<close> on the sieve and the counter \<open>i\<close>.
\<close>

definition reset :: "bool \<Rightarrow> byte \<Rightarrow> error + (byte list \<times> nat) \<Rightarrow> error + (byte list \<times> nat)" where
  "reset c v r =
     (case r of
        Inl e \<Rightarrow> Inl e
      | Inr (sieve, i) \<Rightarrow>
          if c then (case store sieve i v of Inl e \<Rightarrow> Inl e | Inr sieve' \<Rightarrow> Inr (sieve', i + 1))
          else Inr (sieve, i))"

definition preSieve :: "PreSieve \<Rightarrow> byte list \<Rightarrow> nat \<Rightarrow> (error + byte list) option" where
  "preSieve s sieve segmentLow =
     (case (if ps_buffers s ! 0 = [] then Some (preSieveSmall sieve segmentLow)
            else preSieveLarge s sieve segmentLow) of
        None \<Rightarrow> None
      | Some (Inl e) \<Rightarrow> Some (Inl e)
      | Some (Inr sieve') \<Rightarrow>
          (let bit49 = push_bit 4 1;
               bit77 = push_bit 3 1;
               bit91 = push_bit 7 1;
               bit119 = push_bit 6 1;
               bit121 = push_bit 7 1;
               r1 = reset (segmentLow < 30) 0xff (Inr (sieve', 0));
               r2 = reset (segmentLow < 60) (0xff XOR bit49) r1;
               r3 = reset (segmentLow < 90) (0xff XOR bit77 XOR bit91) r2;
               r4 = reset (segmentLow < 120) (0xff XOR bit119 XOR bit121) r3
           in case r4 of Inl e \<Rightarrow> Some (Inl e) | Inr (sieve'', i) \<Rightarrow> Some (Inr sieve'')))"






section \<open>Properties of EratSmall::init\<close>




section \<open>The pre-sieve with the static table\<close>

lemma copy_n_nth:
  assumes "copy_n src first count dst result = Inr dst'" and "k < length dst"
  shows "dst' ! k = (if result \<le> k \<and> k < result + count then src ! (first + (k - result)) else dst ! k)"
proof -
  define A where "A = take result dst"
  define B where "B = take count (drop first src)"
  define C where "C = drop (result + count) dst"
  from assms(1) have b: "first + count \<le> length src" "result + count \<le> length dst"
    and d: "dst' = A @ B @ C"
    by (auto simp: copy_n_def A_def B_def C_def split: if_splits)
  have la: "length A = result" using b by (simp add: A_def)
  have lb: "length B = count" using b by (simp add: B_def)
  show ?thesis
  proof (cases "k < result")
    case True
    then have "dst' ! k = A ! k" by (simp add: d nth_append la)
    also have "\<dots> = dst ! k" using True by (simp add: A_def)
    finally show ?thesis using True by simp
  next
    case False
    note nk = this
    then have e: "dst' ! k = (B @ C) ! (k - result)" by (simp add: d nth_append la)
    show ?thesis
    proof (cases "k < result + count")
      case True
      then have kc: "k - result < count" using nk by simp
      then have "(B @ C) ! (k - result) = B ! (k - result)"
        by (simp add: nth_append lb)
      also have "\<dots> = src ! (first + (k - result))"
        using kc b by (simp add: B_def)
      finally show ?thesis using nk True e by simp
    next
      case False
      then have kc: "\<not> k - result < count" using nk by simp
      then have "(B @ C) ! (k - result) = C ! (k - result - count)"
        by (simp add: nth_append lb)
      also have "\<dots> = dst ! k"
        using False nk assms(2) by (simp add: C_def)
      finally show ?thesis using False e by simp
    qed
  qed
qed

lemma copy_n_ok:
  assumes "first + count \<le> length src" and "result + count \<le> length dst"
  shows "\<exists>dst'. copy_n src first count dst result = Inr dst'"
  using assms by (simp add: copy_n_def)

lemma mod_shift:
  fixes a :: nat
  assumes "(a + i) mod n = 0" and "i \<le> j" and "j - i < n"
  shows "(a + j) mod n = j - i"
proof -
  have "a + j = (a + i) + (j - i)" using assms(2) by simp
  then have "(a + j) mod n = ((a + i) mod n + (j - i)) mod n"
    by (metis mod_add_left_eq)
  then show ?thesis using assms(1,3) by simp
qed

text \<open>The table read cyclically from position \<open>i0\<close> on.\<close>

definition periodic :: "nat \<Rightarrow> nat \<Rightarrow> byte" where
  "periodic i0 j = buffer_7_11_13 ! ((i0 + j) mod 1001)"

lemma preSieveSmall_loop_inv:
  assumes "i \<le> length sieve"
    and "\<forall>j<i. sieve ! j = periodic i0 j"
    and "(i0 + i) mod 1001 = 0"
  shows "\<exists>sieve' i'. preSieveSmall_loop i sieve = Inr (sieve', i')
           \<and> length sieve' = length sieve \<and> i' \<le> length sieve \<and> length sieve \<le> i' + 1001
           \<and> (i0 + i') mod 1001 = 0 \<and> (\<forall>j<i'. sieve' ! j = periodic i0 j)"
  using assms
proof (induction i sieve rule: preSieveSmall_loop.induct)
  case (1 i sieve)
  show ?case
  proof (cases "i + 1001 < length sieve")
    case False
    then show ?thesis
      using "1.prems"
      by (subst preSieveSmall_loop.simps) (simp add: buffer_7_11_13_size)
  next
    case True
    then have "\<exists>sieve1. copy_n buffer_7_11_13 0 1001 sieve i = Inr sieve1"
      by (intro copy_n_ok) (simp_all add: buffer_7_11_13_size)
    then obtain sieve1 where c: "copy_n buffer_7_11_13 0 1001 sieve i = Inr sieve1" ..
    have l1: "length sieve1 = length sieve" using c by (rule copy_n_length)
    have n1: "\<forall>j<i + 1001. sieve1 ! j = periodic i0 j"
    proof (intro allI impI)
      fix j assume j: "j < i + 1001"
      then have jl: "j < length sieve" using True by simp
      show "sieve1 ! j = periodic i0 j"
      proof (cases "j < i")
        case True
        then show ?thesis using copy_n_nth[OF c jl] "1.prems"(2) by simp
      next
        case False
        then have "sieve1 ! j = buffer_7_11_13 ! (j - i)"
          using copy_n_nth[OF c jl] j by simp
        moreover have "(i0 + j) mod 1001 = j - i"
          using "1.prems"(3) j False by (intro mod_shift) simp_all
        ultimately show ?thesis by (simp add: periodic_def)
      qed
    qed
    have m1: "(i0 + (i + 1001)) mod 1001 = 0"
      using "1.prems"(3) by (metis add.assoc mod_add_self2)
    have "\<exists>sieve' i'. preSieveSmall_loop (i + 1001) sieve1 = Inr (sieve', i')
           \<and> length sieve' = length sieve1 \<and> i' \<le> length sieve1 \<and> length sieve1 \<le> i' + 1001
           \<and> (i0 + i') mod 1001 = 0 \<and> (\<forall>j<i'. sieve' ! j = periodic i0 j)"
      using "1.IH"[of 1001 sieve1] True c l1 n1 m1
      by (simp add: buffer_7_11_13_size)
    then show ?thesis
      using True c l1
      by (subst preSieveSmall_loop.simps) (simp add: buffer_7_11_13_size)
  qed
qed

text \<open>
  Claim C7.  For every \<open>segmentLow\<close> and every sieve, \<open>preSieveSmall\<close> returns without an
  access out of bounds, keeps the length of the sieve, and byte \<open>j\<close> of the result is byte
  \<open>((segmentLow mod 30030) div 30 + j) mod 1001\<close> of \<open>buffer_7_11_13\<close>, in the branch that
  copies a part of the table as in the branch that copies its end and then the whole table
  repeatedly.
\<close>

theorem preSieveSmall_periodic:
  "\<exists>sieve'. preSieveSmall sieve segmentLow = Inr sieve' \<and> length sieve' = length sieve
     \<and> (\<forall>j<length sieve.
           sieve' ! j = buffer_7_11_13 ! ((((segmentLow mod 30030) div 30) + j) mod 1001))"
proof -
  define i where "i = (segmentLow mod 30030) div 30"
  have i: "i < 1001" unfolding i_def by simp
  show ?thesis
  proof (cases "length sieve \<le> 1001 - i")
    case True
    then have "\<exists>s1. copy_n buffer_7_11_13 i (length sieve) sieve 0 = Inr s1"
      using i by (intro copy_n_ok) (simp_all add: buffer_7_11_13_size)
    then obtain s1 where c: "copy_n buffer_7_11_13 i (length sieve) sieve 0 = Inr s1" ..
    have "\<forall>j<length sieve. s1 ! j = buffer_7_11_13 ! ((i + j) mod 1001)"
      using copy_n_nth[OF c] True i by simp
    then show ?thesis
      using True c copy_n_length[OF c]
      by (simp add: preSieveSmall_def buffer_7_11_13_size i_def Let_def)
  next
    case False
    then have "\<exists>s1. copy_n buffer_7_11_13 i (1001 - i) sieve 0 = Inr s1"
      using i by (intro copy_n_ok) (simp_all add: buffer_7_11_13_size)
    then obtain s1 where c: "copy_n buffer_7_11_13 i (1001 - i) sieve 0 = Inr s1" ..
    have l1: "length s1 = length sieve" using c by (rule copy_n_length)
    have p1: "\<forall>j<1001 - i. s1 ! j = periodic i j"
    proof (intro allI impI)
      fix j assume "j < 1001 - i"
      then show "s1 ! j = periodic i j"
        using copy_n_nth[OF c, of j] False by (simp add: periodic_def)
    qed
    have "(i + (1001 - i)) mod 1001 = 0" using i by simp
    with p1 False l1 obtain s2 i' where
      lp: "preSieveSmall_loop (1001 - i) s1 = Inr (s2, i')"
      and l2: "length s2 = length s1" and b: "i' \<le> length s1" "length s1 \<le> i' + 1001"
      and m: "(i + i') mod 1001 = 0" and p2: "\<forall>j<i'. s2 ! j = periodic i j"
      using preSieveSmall_loop_inv[of "1001 - i" s1 i] by auto
    have "\<exists>s3. copy_n buffer_7_11_13 0 (length s2 - i') s2 i' = Inr s3"
      using b l2 by (intro copy_n_ok) (simp_all add: buffer_7_11_13_size)
    then obtain s3 where c3: "copy_n buffer_7_11_13 0 (length s2 - i') s2 i' = Inr s3" ..
    have l3: "length s3 = length sieve" using copy_n_length[OF c3] l2 l1 by simp
    have "\<forall>j<length sieve. s3 ! j = periodic i j"
    proof (intro allI impI)
      fix j assume j: "j < length sieve"
      show "s3 ! j = periodic i j"
      proof (cases "j < i'")
        case True
        then show ?thesis using copy_n_nth[OF c3, of j] j l1 l2 p2 by simp
      next
        case False
        then have "s3 ! j = buffer_7_11_13 ! (j - i')"
          using copy_n_nth[OF c3, of j] j l1 l2 by simp
        moreover have "(i + j) mod 1001 = j - i'"
          using m j False b l1 by (intro mod_shift) simp_all
        ultimately show ?thesis by (simp add: periodic_def)
      qed
    qed
    then show ?thesis
      using False c lp c3 l3
      by (simp add: preSieveSmall_def buffer_7_11_13_size i_def[symmetric] Let_def periodic_def)
  qed
qed


theorem preSieveSmall_periodic_witness:
  "\<exists>sieve'. preSieveSmall [0, 0, 0] 30000 = Inr sieve' \<and> length sieve' = 3 \<and> sieve' ! 1 = 0xf8"
proof -
  obtain sieve' where s: "preSieveSmall [0, 0, 0] 30000 = Inr sieve'"
      "length sieve' = length [0, 0, 0 :: byte]"
      "\<forall>j<length [0, 0, 0 :: byte].
          sieve' ! j = buffer_7_11_13 ! ((((30000 mod 30030) div 30) + j) mod 1001)"
    using preSieveSmall_periodic[of "[0, 0, 0]" 30000] by blast
  from s(3) have "sieve' ! 1 = buffer_7_11_13 ! ((((30000 mod 30030) div 30) + 1) mod 1001)"
    by simp
  also have "\<dots> = 0xf8" by (simp add: buffer_7_11_13_def)
  finally show ?thesis using s(1,2) by simp
qed

section \<open>The pre-sieve with the eight buffers\<close>

text \<open>The bitwise AND of one byte of each of the eight buffers, byte \<open>idx i\<close> of buffer \<open>i\<close>.\<close>

definition and8 :: "byte list list \<Rightarrow> (nat \<Rightarrow> nat) \<Rightarrow> byte" where
  "and8 buffers idx =
     buffers ! 0 ! idx 0 AND buffers ! 1 ! idx 1 AND buffers ! 2 ! idx 2 AND buffers ! 3 ! idx 3
     AND buffers ! 4 ! idx 4 AND buffers ! 5 ! idx 5 AND buffers ! 6 ! idx 6 AND buffers ! 7 ! idx 7"

lemma and8_cong: "(\<And>i. i < 8 \<Longrightarrow> f i = g i) \<Longrightarrow> and8 buffers f = and8 buffers g"
  by (simp add: and8_def)

lemma fold_min_le_init: "fold (\<lambda>i b. min (f i) b) xs (b0::nat) \<le> b0"
proof (induction xs arbitrary: b0)
  case Nil
  show ?case by simp
next
  case (Cons x xs)
  have "fold (\<lambda>i b. min (f i) b) xs (min (f x) b0) \<le> min (f x) b0" by (rule Cons.IH)
  then show ?case by simp
qed

lemma fold_min_le_elem: "i \<in> set xs \<Longrightarrow> fold (\<lambda>i b. min (f i) b) xs (b0::nat) \<le> f i"
proof (induction xs arbitrary: b0)
  case Nil
  then show ?case by simp
next
  case (Cons x xs)
  show ?case
  proof (cases "i = x")
    case True
    have "fold (\<lambda>i b. min (f i) b) xs (min (f x) b0) \<le> min (f x) b0" by (rule fold_min_le_init)
    then show ?thesis using True by simp
  next
    case False
    then have "i \<in> set xs" using Cons.prems by simp
    then show ?thesis using Cons.IH by simp
  qed
qed

lemma fold_min_pos:
  "1 \<le> b0 \<Longrightarrow> \<forall>i\<in>set xs. 1 \<le> f i \<Longrightarrow> 1 \<le> fold (\<lambda>i b. min (f i) b) xs (b0::nat)"
proof (induction xs arbitrary: b0)
  case Nil
  then show ?case by simp
next
  case (Cons x xs)
  have "1 \<le> min (f x) b0" using Cons.prems by simp
  moreover have "\<forall>i\<in>set xs. 1 \<le> f i" using Cons.prems by simp
  ultimately have "1 \<le> fold (\<lambda>i b. min (f i) b) xs (min (f x) b0)" by (rule Cons.IH)
  then show ?case by simp
qed

lemma andBuffers_nth:
  assumes "andBuffers b1 b2 b3 b4 b5 b6 b7 b8 sieve offset bytes = Inr sieve'" and "j < length sieve"
  shows "sieve' ! j =
    (if offset \<le> j \<and> j < offset + bytes
     then b1 ! (j - offset) AND b2 ! (j - offset) AND b3 ! (j - offset) AND b4 ! (j - offset)
          AND b5 ! (j - offset) AND b6 ! (j - offset) AND b7 ! (j - offset) AND b8 ! (j - offset)
     else sieve ! j)"
proof -
  define g where "g = (\<lambda>i. b1 ! i AND b2 ! i AND b3 ! i AND b4 ! i
                         AND b5 ! i AND b6 ! i AND b7 ! i AND b8 ! i)"
  define A where "A = take offset sieve"
  define B where "B = map g [0..<bytes]"
  define C where "C = drop (offset + bytes) sieve"
  from assms(1) have b: "offset + bytes \<le> length sieve" and d: "sieve' = A @ B @ C"
    by (auto simp: andBuffers_def A_def B_def C_def g_def split: if_splits)
  have la: "length A = offset" using b by (simp add: A_def)
  have lb: "length B = bytes" by (simp add: B_def)
  show ?thesis
  proof (cases "j < offset")
    case True
    then have "sieve' ! j = A ! j" by (simp add: d nth_append la)
    also have "\<dots> = sieve ! j" using True by (simp add: A_def)
    finally show ?thesis using True by simp
  next
    case False
    note nj = this
    then have e: "sieve' ! j = (B @ C) ! (j - offset)" by (simp add: d nth_append la)
    show ?thesis
    proof (cases "j < offset + bytes")
      case True
      then have jc: "j - offset < bytes" using nj by simp
      then have "(B @ C) ! (j - offset) = B ! (j - offset)" by (simp add: nth_append lb)
      also have "\<dots> = g (j - offset)" using jc by (simp add: B_def)
      finally show ?thesis using nj True e by (simp add: g_def)
    next
      case False
      then have jc: "\<not> j - offset < bytes" using nj by simp
      then have "(B @ C) ! (j - offset) = C ! (j - offset - bytes)" by (simp add: nth_append lb)
      also have "\<dots> = sieve ! j" using False nj assms(2) by (simp add: C_def)
      finally show ?thesis using False e by simp
    qed
  qed
qed

lemma andBuffers_length:
  "andBuffers b1 b2 b3 b4 b5 b6 b7 b8 sieve offset bytes = Inr sieve' \<Longrightarrow> length sieve' = length sieve"
  by (auto simp: andBuffers_def split: if_splits)


lemma preSieveLarge_loop_correct:
  assumes "offset \<le> length sieve" and "\<forall>i<8. pos ! i < length (buffers ! i)"
  shows "\<exists>sieve'. preSieveLarge_loop buffers offset pos sieve = Some (Inr sieve')
           \<and> length sieve' = length sieve
           \<and> (\<forall>j<length sieve. sieve' ! j =
                 (if j < offset then sieve ! j
                  else and8 buffers (\<lambda>i. (pos ! i + (j - offset)) mod length (buffers ! i))))"
  using assms
proof (induction "length sieve - offset" arbitrary: offset pos sieve rule: less_induct)
  case less
  show ?case
  proof (cases "offset < length sieve")
    case False
    then show ?thesis
      using less.prems by (subst preSieveLarge_loop.simps) simp
  next
    case True
    define left where "left = (\<lambda>i. length (buffers ! i) - pos ! i)"
    define bytes where "bytes = fold (\<lambda>i b. min (left i) b) [0..<8] (length sieve - offset)"
    define pos' where
      "pos' = map (\<lambda>i. if pos ! i + bytes \<ge> length (buffers ! i) then 0 else pos ! i + bytes) [0..<8]"
    have b1: "1 \<le> bytes"
      unfolding bytes_def using True less.prems(2)
      by (intro fold_min_pos) (auto simp: left_def)
    have b2: "bytes \<le> length sieve - offset"
      unfolding bytes_def by (rule fold_min_le_init)
    have b3: "bytes \<le> left i" if "i < 8" for i
      unfolding bytes_def using that by (intro fold_min_le_elem) simp
    have ob: "offset + bytes \<le> length sieve" using b2 True by simp
    have b4: "pos ! i + bytes \<le> length (buffers ! i)" if "i < 8" for i
      using b3[OF that] less.prems(2) that by (auto simp: left_def)
    have "\<exists>sieve1. andBuffers (drop (pos ! 0) (buffers ! 0)) (drop (pos ! 1) (buffers ! 1))
                   (drop (pos ! 2) (buffers ! 2)) (drop (pos ! 3) (buffers ! 3))
                   (drop (pos ! 4) (buffers ! 4)) (drop (pos ! 5) (buffers ! 5))
                   (drop (pos ! 6) (buffers ! 6)) (drop (pos ! 7) (buffers ! 7))
                   sieve offset bytes = Inr sieve1"
      using ob b3[of 0] b3[of 1] b3[of 2] b3[of 3] b3[of 4] b3[of 5] b3[of 6] b3[of 7]
      by (simp add: andBuffers_def left_def)
    then obtain sieve1 where a:
      "andBuffers (drop (pos ! 0) (buffers ! 0)) (drop (pos ! 1) (buffers ! 1))
                   (drop (pos ! 2) (buffers ! 2)) (drop (pos ! 3) (buffers ! 3))
                   (drop (pos ! 4) (buffers ! 4)) (drop (pos ! 5) (buffers ! 5))
                   (drop (pos ! 6) (buffers ! 6)) (drop (pos ! 7) (buffers ! 7))
                   sieve offset bytes = Inr sieve1" ..
    have l1: "length sieve1 = length sieve" using a by (rule andBuffers_length)
    have pi: "pos' ! i = (if pos ! i + bytes \<ge> length (buffers ! i) then 0 else pos ! i + bytes)"
      if "i < 8" for i
      using that by (simp add: pos'_def)
    have pm: "pos' ! i = (pos ! i + bytes) mod length (buffers ! i)" if "i < 8" for i
      using b4[OF that] by (simp add: pi[OF that])
    have p': "\<forall>i<8. pos' ! i < length (buffers ! i)"
      using less.prems(2) by (auto simp: pi)
    have "preSieveLarge_loop buffers offset pos sieve
            = (case andBuffers (drop (pos ! 0) (buffers ! 0)) (drop (pos ! 1) (buffers ! 1))
                   (drop (pos ! 2) (buffers ! 2)) (drop (pos ! 3) (buffers ! 3))
                   (drop (pos ! 4) (buffers ! 4)) (drop (pos ! 5) (buffers ! 5))
                   (drop (pos ! 6) (buffers ! 6)) (drop (pos ! 7) (buffers ! 7))
                   sieve offset bytes of
                 Inl e \<Rightarrow> Some (Inl e)
               | Inr sieve' \<Rightarrow> preSieveLarge_loop buffers (offset + bytes) pos' sieve')"
      by (subst preSieveLarge_loop.simps)
         (simp only: True if_True Let_def bytes_def left_def pos'_def)
    then have step: "preSieveLarge_loop buffers offset pos sieve
                  = preSieveLarge_loop buffers (offset + bytes) pos' sieve1"
      by (simp only: a sum.case)
    have "\<exists>sieve'. preSieveLarge_loop buffers (offset + bytes) pos' sieve1 = Some (Inr sieve')
           \<and> length sieve' = length sieve1
           \<and> (\<forall>j<length sieve1. sieve' ! j =
                 (if j < offset + bytes then sieve1 ! j
                  else and8 buffers (\<lambda>i. (pos' ! i + (j - (offset + bytes))) mod length (buffers ! i))))"
      using b1 b2 True l1 p' by (intro less.hyps) simp_all
    then obtain sieve' where r: "preSieveLarge_loop buffers (offset + bytes) pos' sieve1 = Some (Inr sieve')"
      and l': "length sieve' = length sieve1"
      and n': "\<And>j. j < length sieve1 \<Longrightarrow> sieve' ! j =
                 (if j < offset + bytes then sieve1 ! j
                  else and8 buffers (\<lambda>i. (pos' ! i + (j - (offset + bytes))) mod length (buffers ! i)))"
      by blast
    have "sieve' ! j = (if j < offset then sieve ! j
                  else and8 buffers (\<lambda>i. (pos ! i + (j - offset)) mod length (buffers ! i)))"
      if j: "j < length sieve" for j
    proof (cases "j < offset + bytes")
      case True
      note jb = this
      have e: "sieve' ! j = sieve1 ! j" using n'[of j] j l1 jb by simp
      show ?thesis
      proof (cases "j < offset")
        case True
        then show ?thesis using e andBuffers_nth[OF a j] by simp
      next
        case False
        have "i < 8 \<Longrightarrow> pos ! i + (j - offset) < length (buffers ! i)" for i
          using b4[of i] jb False by simp
        then have "and8 buffers (\<lambda>i. (pos ! i + (j - offset)) mod length (buffers ! i))
                 = and8 buffers (\<lambda>i. pos ! i + (j - offset))"
          by (intro and8_cong) simp
        moreover have "sieve1 ! j = and8 buffers (\<lambda>i. pos ! i + (j - offset))"
          using andBuffers_nth[OF a j] False jb
            b4[of 0] b4[of 1] b4[of 2] b4[of 3] b4[of 4] b4[of 5] b4[of 6] b4[of 7]
          by (simp add: and8_def)
        ultimately show ?thesis using e False by simp
      qed
    next
      case False
      have "(pos' ! i + (j - (offset + bytes))) mod length (buffers ! i)
              = (pos ! i + (j - offset)) mod length (buffers ! i)" if "i < 8" for i
      proof -
        have "(pos' ! i + (j - (offset + bytes))) mod length (buffers ! i)
            = ((pos ! i + bytes) + (j - (offset + bytes))) mod length (buffers ! i)"
          unfolding pm[OF that] by (rule mod_add_left_eq)
        moreover have "(pos ! i + bytes) + (j - (offset + bytes)) = pos ! i + (j - offset)"
          using False by simp
        ultimately show ?thesis by simp
      qed
      then have "and8 buffers (\<lambda>i. (pos' ! i + (j - (offset + bytes))) mod length (buffers ! i))
               = and8 buffers (\<lambda>i. (pos ! i + (j - offset)) mod length (buffers ! i))"
        by (intro and8_cong)
      then show ?thesis using n'[of j] j l1 False by simp
    qed
    then show ?thesis using step r l' l1 by simp
  qed
qed


lemma cursor_bound:
  assumes "0 < (n::nat)"
  shows "(segmentLow mod (n * 30)) div 30 < n"
proof -
  have "segmentLow mod (n * 30) < n * 30" using assms by simp
  then show ?thesis by (simp add: less_mult_imp_div_less)
qed

lemma cursor_eq: "(segmentLow mod (n * 30)) div 30 = (segmentLow div 30) mod (n::nat)"
proof -
  have "segmentLow mod (30 * n) = 30 * (segmentLow div 30 mod n) + segmentLow mod 30"
    by (rule mod_mult2_eq)
  then have "(segmentLow mod (30 * n)) div 30 = segmentLow div 30 mod n"
    by simp
  then show ?thesis by (simp only: mult.commute[of n 30])
qed

lemma preSieveLarge_correct:
  assumes "\<forall>i<8. ps_buffers s ! i \<noteq> []"
  shows "\<exists>sieve'. preSieveLarge s sieve segmentLow = Some (Inr sieve')
           \<and> length sieve' = length sieve
           \<and> (\<forall>j<length sieve. sieve' ! j =
                 and8 (ps_buffers s) (\<lambda>i. (segmentLow div 30 + j) mod length (ps_buffers s ! i)))"
proof -
  define pos where
    "pos = map (\<lambda>i. (segmentLow mod (length (ps_buffers s ! i) * 30)) div 30) [0..<8]"
  have pi: "pos ! i = (segmentLow div 30) mod length (ps_buffers s ! i)" if "i < 8" for i
    using that by (simp add: pos_def cursor_eq)
  have inv: "\<forall>i<8. pos ! i < length (ps_buffers s ! i)"
    using assms by (simp add: pi)
  have nz: "\<not> list_ex (\<lambda>i. length (ps_buffers s ! i) * 30 = 0) [0..<8]"
    using assms by (simp add: list_ex_iff)
  have e: "preSieveLarge s sieve segmentLow = preSieveLarge_loop (ps_buffers s) 0 pos sieve"
    unfolding preSieveLarge_def pos_def using nz by (simp only: if_False)
  obtain sieve' where r: "preSieveLarge_loop (ps_buffers s) 0 pos sieve = Some (Inr sieve')"
    and l: "length sieve' = length sieve"
    and n: "\<And>j. j < length sieve \<Longrightarrow> sieve' ! j =
              (if j < 0 then sieve ! j
               else and8 (ps_buffers s) (\<lambda>i. (pos ! i + (j - 0)) mod length (ps_buffers s ! i)))"
    using preSieveLarge_loop_correct[of 0 sieve pos "ps_buffers s"] inv by auto
  have "sieve' ! j = and8 (ps_buffers s) (\<lambda>i. (segmentLow div 30 + j) mod length (ps_buffers s ! i))"
    if "j < length sieve" for j
  proof -
    have "and8 (ps_buffers s) (\<lambda>i. (pos ! i + (j - 0)) mod length (ps_buffers s ! i))
        = and8 (ps_buffers s) (\<lambda>i. (segmentLow div 30 + j) mod length (ps_buffers s ! i))"
      by (intro and8_cong) (simp add: pi mod_add_left_eq)
    then show ?thesis using n[OF that] by simp
  qed
  then show ?thesis using e r l by simp
qed

text \<open>
  Claim C10.  When none of the eight buffers is empty, the cursors computed at the start of
  \<open>preSieveLarge\<close> lie inside their buffers, and \<open>preSieveLarge\<close> returns, for every sieve
  and every \<open>segmentLow\<close>, with a sieve of the same length and without an access out of
  bounds.  (The lemma \<open>preSieveLarge_loop_correct\<close> is the induction over the iterations:
  from cursors inside their buffers, \<open>bytesToCopy\<close> is at least 1, \<open>offset\<close> grows by it,
  and the next cursors are again inside their buffers.)
\<close>

theorem preSieveLarge_terminates:
  assumes "\<forall>i<8. ps_buffers s ! i \<noteq> []"
  shows "(\<forall>i<8. (segmentLow mod (length (ps_buffers s ! i) * 30)) div 30 < length (ps_buffers s ! i))
       \<and> (\<exists>sieve'. preSieveLarge s sieve segmentLow = Some (Inr sieve')
              \<and> length sieve' = length sieve)"
proof
  show "\<forall>i<8. (segmentLow mod (length (ps_buffers s ! i) * 30)) div 30 < length (ps_buffers s ! i)"
    using assms by (simp add: cursor_bound)
  show "\<exists>sieve'. preSieveLarge s sieve segmentLow = Some (Inr sieve') \<and> length sieve' = length sieve"
    using preSieveLarge_correct[OF assms, of sieve segmentLow] by blast
qed

theorem preSieveLarge_terminates_witness:
  "\<exists>sieve'. preSieveLarge \<lparr>ps_maxPrime = 97, ps_totalDist = 0,
                             ps_buffers = replicate 8 [0xff, 0xfe]\<rparr> [0, 0, 0] 30
              = Some (Inr sieve') \<and> length sieve' = length [0, 0, 0 :: byte]"
proof -
  have "\<forall>i<8. ps_buffers \<lparr>ps_maxPrime = 97, ps_totalDist = 0,
                           ps_buffers = replicate 8 [0xff, 0xfe]\<rparr> ! i \<noteq> []"
    by simp
  from preSieveLarge_terminates[OF this, of 30 "[0, 0, 0]", THEN conjunct2]
  show ?thesis .
qed

section \<open>The strike loop on unbounded offsets\<close>

text \<open>
  The proofs about the strike loop are made on a second form of it, in which a pointer is
  its offset from \<open>sieve\<close>, a natural number that does not wrap, and the bytes between
  \<open>sieve\<close> and \<open>sieveEnd\<close> are addressed by these offsets.  The functions below are
  \<open>unrolledBody\<close>, \<open>strikeLoop\<close> and \<open>crossOff_range\<close> in that form, named with the suffix
  \<open>_nat\<close>.  They are not the code: the code is the 64-bit form above, and the two forms
  are proved to agree for the calls in which no address that the code computes passes
  \<open>2 ^ 64\<close> (lemma \<open>crossOff_range_refines\<close>).  Every theorem about the code is stated on
  the 64-bit form.
\<close>

fun unrolledBody_nat :: "(nat \<times> nat \<times> nat) list \<Rightarrow> nat \<Rightarrow> nat \<Rightarrow> byte list \<Rightarrow> error + byte list" where
  "unrolledBody_nat [] sievingPrime p sieve = Inr sieve"
| "unrolledBody_nat ((m, c, b) # rows) sievingPrime p sieve =
     (case and_at sieve (p + (sievingPrime * m + c)) (BIT b) of
        Inl e \<Rightarrow> Inl e
      | Inr sieve' \<Rightarrow> unrolledBody_nat rows sievingPrime p sieve')"

text \<open>
  The \<open>switch\<close> of \<open>crossOff\<close> for one sieving prime, entered at the label
  \<open>wheelIndex & 63\<close>.  \<open>sieve\<close> is the byte range from the pointer \<open>sieve\<close> up to \<open>sieveEnd\<close>
  and \<open>p\<close> the offset of the pointer \<open>p\<close> in it.  At the first label of a block the unrolled
  loop runs while \<open>p < loopEnd\<close>; then each label tests \<open>CHECK_FINISHED\<close>, which saves
  \<open>p - sieveEnd\<close> and the label and leaves, clears its bit and advances \<open>p\<close>.  The result is
  the range, the saved \<open>multipleIndex\<close> and the saved \<open>wheelIndex\<close>.
\<close>

function strikeLoop_nat ::
  "nat \<Rightarrow> nat \<Rightarrow> nat \<Rightarrow> nat \<Rightarrow> byte list \<Rightarrow> error + (byte list \<times> nat \<times> nat)"
where
  "strikeLoop_nat sievingPrime loopEnd p wheelIndex sieve =
     (let label = wheelIndex mod 64 in
      if label mod 8 = 0 \<and> p < loopEnd then
        (case unrolledBody_nat (fst (unrolled ! (label div 8))) sievingPrime p sieve of
           Inl e \<Rightarrow> Inl e
         | Inr sieve' \<Rightarrow>
             strikeLoop_nat sievingPrime loopEnd
               (p + (sievingPrime * 30 + snd (unrolled ! (label div 8)))) label sieve')
      else if p \<ge> length sieve then Inr (sieve, p - length sieve, label)
      else
        (case strikes ! label of (b, m, c) \<Rightarrow>
           (case and_at sieve p (BIT b) of
              Inl e \<Rightarrow> Inl e
            | Inr sieve' \<Rightarrow>
                strikeLoop_nat sievingPrime loopEnd (p + (sievingPrime * m + c))
                  (nextLabel label) sieve')))"
  by pat_completeness auto


lemma and_at_length: "and_at a i m = Inr a' \<Longrightarrow> length a' = length a"
  by (auto simp: and_at_def split: if_splits)

lemma unrolledBody_nat_length:
  "unrolledBody_nat rows sp p sieve = Inr sieve' \<Longrightarrow> length sieve' = length sieve"
proof (induction rows arbitrary: sieve)
  case Nil
  then show ?case by simp
next
  case (Cons r rows)
  obtain m c b where r: "r = (m, c, b)" by (cases r)
  from Cons.prems show ?case
    by (auto simp: r split: sum.splits dest!: Cons.IH and_at_length)
qed

lemma all_less_64: "(\<forall>i<64. P i) = list_all P [0..<64]"
  by (auto simp: list_all_iff)

lemma all_less_8: "(\<forall>i<8. P i) = list_all P [0..<8]"
  by (auto simp: list_all_iff)

lemma unrolled_step_pos:
  assumes "c < 8"
  shows "1 \<le> snd (unrolled ! c)"
proof -
  have a: "\<forall>c<8. 1 \<le> snd (unrolled ! c)"
    unfolding all_less_8 by code_simp
  show ?thesis by (rule a[rule_format, OF assms])
qed

lemma strikes_first_pos:
  assumes "label < 64" and "label mod 8 = 0"
  shows "1 \<le> snd (snd (strikes ! label))"
proof -
  have a: "\<forall>label<64. label mod 8 = 0 \<longrightarrow> 1 \<le> snd (snd (strikes ! label))"
    unfolding all_less_64 by code_simp
  show ?thesis by (rule a[rule_format, OF assms])
qed

lemma nextLabel_mod8: "nextLabel l mod 8 = (if l mod 8 = 7 then 0 else l mod 8 + 1)"
proof (cases "l mod 8 = 7")
  case True
  have "l = 8 * (l div 8) + l mod 8" by simp
  with True have "l - 7 = 8 * (l div 8)" by simp
  with True show ?thesis by (simp add: nextLabel_def)
next
  case False
  then show ?thesis by (simp add: nextLabel_def mod_Suc)
qed

lemma measure_step:
  "p < M \<Longrightarrow> 1 \<le> d \<Longrightarrow> f' < 8 \<Longrightarrow> 8 * (M - (p + d)) + f' < 8 * (M - p) + (f::nat)"
  by linarith

lemma rank_next:
  assumes "l mod 8 \<noteq> 0"
  shows "(8 - nextLabel l mod 8) mod 8 < (8 - l mod 8) mod 8"
proof -
  define j where "j = l mod 8"
  have j: "j < 8" "j \<noteq> 0" using assms by (simp_all add: j_def)
  have n: "nextLabel l mod 8 = (if j = 7 then 0 else j + 1)"
    by (simp add: nextLabel_mod8 j_def)
  show ?thesis
    unfolding n j_def[symmetric] using j by (cases "j = 7") simp_all
qed

text \<open>
  The loop ends: \<open>p\<close> never decreases, a turn of the unrolled loop and the strike of the
  first label of a block move it forward, and between two such moves the label only goes up.
\<close>

termination strikeLoop_nat
proof (relation "measure (\<lambda>(sp, loopEnd, p, wi, sieve).
          8 * (max loopEnd (length sieve) - p) + (8 - wi mod 8) mod 8)", goal_cases)
  case 1
  show ?case by simp
next
  case (2 sp loopEnd p wi sieve label sieve')
  have l: "length sieve' = length sieve"
    using 2(3) by (rule unrolledBody_nat_length)
  have "label < 64" using 2(1) by simp
  then have "label div 8 < 8" by simp
  then have r: "1 \<le> snd (unrolled ! (label div 8))"
    by (rule unrolled_step_pos)
  have w: "wi mod 8 = 0" "label mod 8 = 0"
    using 2(1,2) by (simp_all add: mod_mod_cancel)
  have "p < max loopEnd (length sieve)" using 2(2) by (simp add: less_max_iff_disj)
  then have "8 * (max loopEnd (length sieve) - (p + (sp * 30 + snd (unrolled ! (label div 8))))) + 0
        < 8 * (max loopEnd (length sieve) - p) + 0"
    using r by (intro measure_step) simp_all
  then show ?case
    using w l by simp
next
  case (3 sp loopEnd p wi sieve label b y m c sieve')
  have l: "length sieve' = length sieve"
    using 3(6) by (rule and_at_length)
  have lab: "label < 64" "label mod 8 = wi mod 8"
    using 3(1) by (simp_all add: mod_mod_cancel)
  have pn: "p < max loopEnd (length sieve)" using 3(3) by (simp add: less_max_iff_disj)
  have c: "snd (snd (strikes ! label)) = c"
    using 3(4,5) by (metis snd_conv)
  show ?case
  proof (cases "sp * m + c = 0")
    case True
    have "label mod 8 \<noteq> 0"
    proof
      assume "label mod 8 = 0"
      from strikes_first_pos[OF lab(1) this] c True show False by simp
    qed
    then have "(8 - nextLabel label mod 8) mod 8 < (8 - label mod 8) mod 8"
      by (rule rank_next)
    moreover from True have e: "p + (sp * m + c) = p" by simp
    ultimately show ?thesis
      unfolding e using l lab(2) by simp
  next
    case False
    then have d: "1 \<le> sp * m + c" by (cases "sp * m + c") simp_all
    have "(8 - nextLabel label mod 8) mod 8 < 8" by simp
    with pn d
    have "8 * (max loopEnd (length sieve) - (p + (sp * m + c))) + (8 - nextLabel label mod 8) mod 8
        < 8 * (max loopEnd (length sieve) - p) + (8 - wi mod 8) mod 8"
      by (rule measure_step)
    then show ?thesis
      using l by simp
  qed
qed

declare strikeLoop_nat.simps [simp del]

text \<open>
  \<open>EratSmall::crossOff(uint8_t* sieve, uint8_t* sieveEnd)\<close>: the loop over \<open>primes_\<close>.  Each
  prime strikes in the range left by the primes before it, and \<open>prime.set\<close> stores what
  \<open>CHECK_FINISHED\<close> saved.  The result is the range and the updated primes.
\<close>

fun crossOff_range_nat :: "nat SievingPrime list \<Rightarrow> byte list \<Rightarrow> error + (byte list \<times> nat SievingPrime list)" where
  "crossOff_range_nat [] sieve = Inr (sieve, [])"
| "crossOff_range_nat (prime # primes) sieve =
     (let sievingPrime = getSievingPrime prime;
          multipleIndex = getMultipleIndex prime;
          wheelIndex = getWheelIndex prime;
          maxLoopDist = sievingPrime * 28 + 27;
          loopEnd = max (length sieve) (0 + maxLoopDist) - maxLoopDist;
          p = multipleIndex
      in case strikeLoop_nat sievingPrime loopEnd p wheelIndex sieve of
           Inl e \<Rightarrow> Inl e
         | Inr (sieve', multipleIndex', wheelIndex') \<Rightarrow>
             (case crossOff_range_nat primes sieve' of
                Inl e \<Rightarrow> Inl e
              | Inr (sieve'', primes') \<Rightarrow>
                  Inr (sieve'', set_indexes multipleIndex' wheelIndex' prime # primes')))"

subsection \<open>Safety and resumption on unbounded offsets\<close>

lemma unrolled_rows_bound:
  assumes "c < 8" and "(m, k, b) \<in> set (fst (unrolled ! c))"
  shows "m \<le> 28 \<and> k \<le> 27"
proof -
  have a: "\<forall>c<8. list_all (\<lambda>(m, k, b). m \<le> 28 \<and> k \<le> 27) (fst (unrolled ! c))"
    unfolding all_less_8 by code_simp
  from a[rule_format, OF assms(1)] assms(2) show ?thesis
    by (auto simp: list_all_iff)
qed

lemma unrolledBody_nat_ok:
  assumes "\<forall>(m, k, b)\<in>set rows. p + (sp * m + k) < length sieve"
  shows "\<exists>sieve'. unrolledBody_nat rows sp p sieve = Inr sieve' \<and> length sieve' = length sieve"
  using assms
proof (induction rows arbitrary: sieve)
  case Nil
  show ?case by simp
next
  case (Cons row rows)
  obtain m k b where row: "row = (m, k, b)" by (cases row)
  have i: "p + (sp * m + k) < length sieve" using Cons.prems by (simp add: row)
  define sieve1 where "sieve1 = sieve[p + (sp * m + k) := sieve ! (p + (sp * m + k)) AND BIT b]"
  have a: "and_at sieve (p + (sp * m + k)) (BIT b) = Inr sieve1"
    using i by (simp add: and_at_def sieve1_def)
  have l: "length sieve1 = length sieve" by (simp add: sieve1_def)
  have "\<forall>(m, k, b)\<in>set rows. p + (sp * m + k) < length sieve1"
    using Cons.prems l by simp
  from Cons.IH[OF this] show ?case
    using a l by (simp add: row)
qed

lemma strikeLoop_nat_fast:
  assumes "wi mod 64 mod 8 = 0 \<and> p < loopEnd"
  shows "strikeLoop_nat sp loopEnd p wi sieve =
     (case unrolledBody_nat (fst (unrolled ! (wi mod 64 div 8))) sp p sieve of
        Inl e \<Rightarrow> Inl e
      | Inr sieve' \<Rightarrow>
          strikeLoop_nat sp loopEnd (p + (sp * 30 + snd (unrolled ! (wi mod 64 div 8)))) (wi mod 64) sieve')"
  by (subst strikeLoop_nat.simps) (simp only: Let_def if_P[OF assms])

lemma strikeLoop_nat_finished:
  assumes "\<not> (wi mod 64 mod 8 = 0 \<and> p < loopEnd)" and "length sieve \<le> p"
  shows "strikeLoop_nat sp loopEnd p wi sieve = Inr (sieve, p - length sieve, wi mod 64)"
  by (subst strikeLoop_nat.simps) (simp only: Let_def if_not_P[OF assms(1)] if_P[OF assms(2)])

lemma strikeLoop_nat_strike:
  assumes "\<not> (wi mod 64 mod 8 = 0 \<and> p < loopEnd)" and "\<not> length sieve \<le> p"
    and "strikes ! (wi mod 64) = (b, m, c)"
  shows "strikeLoop_nat sp loopEnd p wi sieve =
     strikeLoop_nat sp loopEnd (p + (sp * m + c)) (nextLabel (wi mod 64)) (sieve[p := sieve ! p AND BIT b])"
proof -
  have a: "and_at sieve p (BIT b) = Inr (sieve[p := sieve ! p AND BIT b])"
    using assms(2) by (simp add: and_at_def)
  show ?thesis
    by (subst strikeLoop_nat.simps)
       (simp only: Let_def if_not_P[OF assms(1)] if_not_P[OF assms(2)] assms(3) prod.case a sum.case)
qed

lemma strikeLoop_nat_safe:
  assumes "loopEnd = 0 \<or> loopEnd + (sp * 28 + 27) \<le> length sieve"
  shows "\<exists>sieve' mi wi'. strikeLoop_nat sp loopEnd p wi sieve = Inr (sieve', mi, wi')
            \<and> length sieve' = length sieve"
  using assms
proof (induction sp loopEnd p wi sieve rule: strikeLoop_nat.induct)
  case (1 sp loopEnd p wi sieve)
  define label where "label = wi mod 64"
  have lab: "label < 64" by (simp add: label_def)
  show ?case
  proof (cases "label mod 8 = 0 \<and> p < loopEnd")
    case True
    then have le: "loopEnd + (sp * 28 + 27) \<le> length sieve" using "1.prems" by auto
    have c8: "label div 8 < 8" using lab by simp
    have "\<forall>(m, k, b)\<in>set (fst (unrolled ! (label div 8))). p + (sp * m + k) < length sieve"
    proof (clarify)
      fix m k b assume "(m, k, b) \<in> set (fst (unrolled ! (label div 8)))"
      from unrolled_rows_bound[OF c8 this] have "m \<le> 28" "k \<le> 27" by simp_all
      then have "sp * m + k \<le> sp * 28 + 27" by (simp add: add_mono)
      then show "p + (sp * m + k) < length sieve" using True le by simp
    qed
    from unrolledBody_nat_ok[OF this] obtain sieve1 where
      u: "unrolledBody_nat (fst (unrolled ! (label div 8))) sp p sieve = Inr sieve1"
      and l1: "length sieve1 = length sieve" by blast
    have "\<exists>sieve' mi wi'. strikeLoop_nat sp loopEnd
               (p + (sp * 30 + snd (unrolled ! (label div 8)))) label sieve1 = Inr (sieve', mi, wi')
            \<and> length sieve' = length sieve1"
      using True u le l1 by (intro "1.IH"(1)[OF label_def]) simp_all
    then show ?thesis
      using strikeLoop_nat_fast[of wi p loopEnd sp sieve] True u l1
      by (simp add: label_def)
  next
    case False
    note nf = this
    show ?thesis
    proof (cases "length sieve \<le> p")
      case True
      then show ?thesis
        using strikeLoop_nat_finished[of wi p loopEnd sieve sp] nf by (simp add: label_def)
    next
      case False
      obtain b m c where row: "strikes ! label = (b, m, c)" by (cases "strikes ! label")
      define sieve1 where "sieve1 = sieve[p := sieve ! p AND BIT b]"
      have a: "and_at sieve p (BIT b) = Inr sieve1"
        using False by (simp add: and_at_def sieve1_def)
      have l1: "length sieve1 = length sieve" by (simp add: sieve1_def)
      have "\<exists>sieve' mi wi'. strikeLoop_nat sp loopEnd (p + (sp * m + c)) (nextLabel label) sieve1
                 = Inr (sieve', mi, wi') \<and> length sieve' = length sieve1"
        using nf False row a "1.prems" l1
        by (intro "1.IH"(2)[OF label_def _ _ row[symmetric] refl]) simp_all
      then show ?thesis
        using strikeLoop_nat_strike[of wi p loopEnd sieve b m c sp] nf False row l1
        by (simp add: label_def sieve1_def)
    qed
  qed
qed


text \<open>
  The strikes of the labels taken one at a time, without the unrolled loop: the first \<open>k\<close>
  strikes from the position \<open>p\<close> and the label \<open>l\<close> as pairs of a byte position and a bit,
  and the position and label reached after them.
\<close>

fun slowSteps :: "nat \<Rightarrow> nat \<Rightarrow> nat \<Rightarrow> nat \<Rightarrow> (nat \<times> nat) list" where
  "slowSteps 0 sp p l = []"
| "slowSteps (Suc k) sp p l =
     (case strikes ! l of (b, m, c) \<Rightarrow> (p, b) # slowSteps k sp (p + (sp * m + c)) (nextLabel l))"

fun slowState :: "nat \<Rightarrow> nat \<Rightarrow> nat \<Rightarrow> nat \<Rightarrow> nat \<times> nat" where
  "slowState 0 sp p l = (p, l)"
| "slowState (Suc k) sp p l =
     (case strikes ! l of (b, m, c) \<Rightarrow> slowState k sp (p + (sp * m + c)) (nextLabel l))"

text \<open>Clearing a list of bits, given as pairs of a byte position and a bit.\<close>

definition clearAll :: "(nat \<times> nat) list \<Rightarrow> byte list \<Rightarrow> byte list" where
  "clearAll ps sieve = fold (\<lambda>(i, b) s. s[i := s ! i AND BIT b]) ps sieve"

lemma clearAll_length [simp]: "length (clearAll ps sieve) = length sieve"
  unfolding clearAll_def by (induction ps arbitrary: sieve) auto

lemma clearAll_Nil [simp]: "clearAll [] sieve = sieve"
  by (simp add: clearAll_def)

lemma clearAll_Cons [simp]:
  "clearAll ((i, b) # ps) sieve = clearAll ps (sieve[i := sieve ! i AND BIT b])"
  by (simp add: clearAll_def)

lemma nextLabel_less: "l < 64 \<Longrightarrow> nextLabel l < 64"
proof -
  assume l: "l < 64"
  show "nextLabel l < 64"
  proof (cases "l mod 8 = 7")
    case True
    then show ?thesis using l by (simp add: nextLabel_def)
  next
    case False
    have "l \<noteq> 63" using False by auto
    then show ?thesis using l False by (simp add: nextLabel_def)
  qed
qed


lemma slow_steps:
  assumes "l < 64" and "\<forall>(i, b)\<in>set (slowSteps k sp p l). i < length sieve"
  shows "strikeLoop_nat sp 0 p l sieve =
         strikeLoop_nat sp 0 (fst (slowState k sp p l)) (snd (slowState k sp p l))
           (clearAll (slowSteps k sp p l) sieve)"
  using assms
proof (induction k arbitrary: p l sieve)
  case 0
  show ?case by simp
next
  case (Suc k)
  obtain b m c where row: "strikes ! l = (b, m, c)" by (cases "strikes ! l")
  have lm: "l mod 64 = l" using Suc.prems(1) by simp
  have pl: "p < length sieve" using Suc.prems(2) by (simp add: row)
  have "strikeLoop_nat sp 0 p l sieve =
        strikeLoop_nat sp 0 (p + (sp * m + c)) (nextLabel l) (sieve[p := sieve ! p AND BIT b])"
    using strikeLoop_nat_strike[of l p 0 sieve b m c sp] pl row by (simp add: lm)
  also have "\<dots> = strikeLoop_nat sp 0 (fst (slowState k sp (p + (sp * m + c)) (nextLabel l)))
                      (snd (slowState k sp (p + (sp * m + c)) (nextLabel l)))
                      (clearAll (slowSteps k sp (p + (sp * m + c)) (nextLabel l))
                         (sieve[p := sieve ! p AND BIT b]))"
    using Suc.prems by (intro Suc.IH nextLabel_less) (simp_all add: row)
  finally show ?case by (simp add: row)
qed

lemma unrolledBody_nat_clearAll:
  assumes "\<forall>(m, k, b)\<in>set rows. p + (sp * m + k) < length sieve"
  shows "unrolledBody_nat rows sp p sieve
           = Inr (clearAll (map (\<lambda>(m, k, b). (p + (sp * m + k), b)) rows) sieve)"
  using assms
proof (induction rows arbitrary: sieve)
  case Nil
  show ?case by simp
next
  case (Cons row rows)
  obtain m k b where row: "row = (m, k, b)" by (cases row)
  have i: "p + (sp * m + k) < length sieve" using Cons.prems by (simp add: row)
  have a: "and_at sieve (p + (sp * m + k)) (BIT b)
             = Inr (sieve[p + (sp * m + k) := sieve ! (p + (sp * m + k)) AND BIT b])"
    using i by (simp add: and_at_def)
  have "\<forall>(m', k', b')\<in>set rows. p + (sp * m' + k')
           < length (sieve[p + (sp * m + k) := sieve ! (p + (sp * m + k)) AND BIT b])"
    using Cons.prems by simp
  from Cons.IH[OF this] show ?case
    using a by (simp add: row)
qed


text \<open>
  The eight strikes of the labels of a block, taken one at a time, are the eight writes of
  the unrolled loop of that block, and they advance \<open>p\<close> by the increment of that loop.
\<close>

lemma slowSteps_numeral:
  "slowSteps (numeral k) sp p l =
     (case strikes ! l of (b, m, c) \<Rightarrow>
        (p, b) # slowSteps (pred_numeral k) sp (p + (sp * m + c)) (nextLabel l))"
  by (simp add: numeral_eq_Suc)

lemma slowState_numeral:
  "slowState (numeral k) sp p l =
     (case strikes ! l of (b, m, c) \<Rightarrow>
        slowState (pred_numeral k) sp (p + (sp * m + c)) (nextLabel l))"
  by (simp add: numeral_eq_Suc)

lemma revolution0:
  "slowSteps 8 sp p 0 = map (\<lambda>(m, k, b). (p + (sp * m + k), b)) (fst (unrolled ! 0))
       \<and> slowState 8 sp p 0 = (p + (sp * 30 + snd (unrolled ! 0)), 0)"
  by (simp add: slowSteps_numeral slowState_numeral strikes_def unrolled_def nextLabel_def)

lemma revolution1:
  "slowSteps 8 sp p 8 = map (\<lambda>(m, k, b). (p + (sp * m + k), b)) (fst (unrolled ! 1))
       \<and> slowState 8 sp p 8 = (p + (sp * 30 + snd (unrolled ! 1)), 8)"
  by (simp add: slowSteps_numeral slowState_numeral strikes_def unrolled_def nextLabel_def)

lemma revolution2:
  "slowSteps 8 sp p 16 = map (\<lambda>(m, k, b). (p + (sp * m + k), b)) (fst (unrolled ! 2))
       \<and> slowState 8 sp p 16 = (p + (sp * 30 + snd (unrolled ! 2)), 16)"
  by (simp add: slowSteps_numeral slowState_numeral strikes_def unrolled_def nextLabel_def)

lemma revolution3:
  "slowSteps 8 sp p 24 = map (\<lambda>(m, k, b). (p + (sp * m + k), b)) (fst (unrolled ! 3))
       \<and> slowState 8 sp p 24 = (p + (sp * 30 + snd (unrolled ! 3)), 24)"
  by (simp add: slowSteps_numeral slowState_numeral strikes_def unrolled_def nextLabel_def)

lemma revolution4:
  "slowSteps 8 sp p 32 = map (\<lambda>(m, k, b). (p + (sp * m + k), b)) (fst (unrolled ! 4))
       \<and> slowState 8 sp p 32 = (p + (sp * 30 + snd (unrolled ! 4)), 32)"
  by (simp add: slowSteps_numeral slowState_numeral strikes_def unrolled_def nextLabel_def)

lemma revolution5:
  "slowSteps 8 sp p 40 = map (\<lambda>(m, k, b). (p + (sp * m + k), b)) (fst (unrolled ! 5))
       \<and> slowState 8 sp p 40 = (p + (sp * 30 + snd (unrolled ! 5)), 40)"
  by (simp add: slowSteps_numeral slowState_numeral strikes_def unrolled_def nextLabel_def)

lemma revolution6:
  "slowSteps 8 sp p 48 = map (\<lambda>(m, k, b). (p + (sp * m + k), b)) (fst (unrolled ! 6))
       \<and> slowState 8 sp p 48 = (p + (sp * 30 + snd (unrolled ! 6)), 48)"
  by (simp add: slowSteps_numeral slowState_numeral strikes_def unrolled_def nextLabel_def)

lemma revolution7:
  "slowSteps 8 sp p 56 = map (\<lambda>(m, k, b). (p + (sp * m + k), b)) (fst (unrolled ! 7))
       \<and> slowState 8 sp p 56 = (p + (sp * 30 + snd (unrolled ! 7)), 56)"
  by (simp add: slowSteps_numeral slowState_numeral strikes_def unrolled_def nextLabel_def)

lemma less_8_cases:
  assumes "(c::nat) < 8"
  obtains "c = 0" | "c = 1" | "c = 2" | "c = 3" | "c = 4" | "c = 5" | "c = 6" | "c = 7"
  using assms by linarith

lemma revolution:
  assumes "c < 8"
  shows "slowSteps 8 sp p (8 * c) = map (\<lambda>(m, k, b). (p + (sp * m + k), b)) (fst (unrolled ! c))
       \<and> slowState 8 sp p (8 * c) = (p + (sp * 30 + snd (unrolled ! c)), 8 * c)"
  using assms
proof (cases c rule: less_8_cases)
  case 1 then show ?thesis using revolution0[of sp p] by simp
next
  case 2 then show ?thesis using revolution1[of sp p] by simp
next
  case 3 then show ?thesis using revolution2[of sp p] by simp
next
  case 4 then show ?thesis using revolution3[of sp p] by simp
next
  case 5 then show ?thesis using revolution4[of sp p] by simp
next
  case 6 then show ?thesis using revolution5[of sp p] by simp
next
  case 7 then show ?thesis using revolution6[of sp p] by simp
next
  case 8 then show ?thesis using revolution7[of sp p] by simp
qed

lemma strikeLoop_nat_label: "strikeLoop_nat sp le p (wi mod 64) sieve = strikeLoop_nat sp le p wi sieve"
  by (subst strikeLoop_nat.simps[of _ _ _ "wi mod 64"], subst strikeLoop_nat.simps[of _ _ _ wi])
     (simp only: mod_mod_trivial)

lemma strikeLoop_nat_slow:
  assumes "loopEnd = 0 \<or> loopEnd + (sp * 28 + 27) \<le> length sieve"
  shows "strikeLoop_nat sp loopEnd p wi sieve = strikeLoop_nat sp 0 p wi sieve"
  using assms
proof (induction sp loopEnd p wi sieve rule: strikeLoop_nat.induct)
  case (1 sp loopEnd p wi sieve)
  define label where "label = wi mod 64"
  have lab: "label < 64" by (simp add: label_def)
  have slow0: "\<not> (wi mod 64 mod 8 = 0 \<and> p < 0)" by simp
  show ?case
  proof (cases "label mod 8 = 0 \<and> p < loopEnd")
    case True
    then have le: "loopEnd + (sp * 28 + 27) \<le> length sieve" using "1.prems" by auto
    define c where "c = label div 8"
    have c8: "c < 8" using lab by (simp add: c_def)
    have lc: "label = 8 * c" using True by (auto simp: c_def)
    define rows where "rows = fst (unrolled ! c)"
    define ps where "ps = map (\<lambda>(m, k, b). (p + (sp * m + k), b)) rows"
    define p' where "p' = p + (sp * 30 + snd (unrolled ! c))"
    have inb: "\<forall>(m, k, b)\<in>set rows. p + (sp * m + k) < length sieve"
    proof (clarify)
      fix m k b assume "(m, k, b) \<in> set rows"
      from unrolled_rows_bound[OF c8 this[unfolded rows_def]] have "m \<le> 28" "k \<le> 27" by simp_all
      then have "sp * m + k \<le> sp * 28 + 27" by (simp add: add_mono)
      then show "p + (sp * m + k) < length sieve" using True le by simp
    qed
    have u: "unrolledBody_nat rows sp p sieve = Inr (clearAll ps sieve)"
      unfolding ps_def by (rule unrolledBody_nat_clearAll[OF inb])
    have rev: "slowSteps 8 sp p label = ps" "slowState 8 sp p label = (p', label)"
      using revolution[OF c8, of sp p] by (simp_all add: lc ps_def rows_def p'_def)
    have "strikeLoop_nat sp loopEnd p wi sieve = strikeLoop_nat sp loopEnd p' label (clearAll ps sieve)"
      using strikeLoop_nat_fast[of wi p loopEnd sp sieve] True u
      by (simp add: label_def[symmetric] c_def[symmetric] rows_def[symmetric] p'_def)
    also have "\<dots> = strikeLoop_nat sp 0 p' label (clearAll ps sieve)"
      using True u le
      by (intro "1.IH"(1)[OF label_def, unfolded c_def[symmetric] rows_def[symmetric] p'_def[symmetric]])
         simp_all
    also have "\<dots> = strikeLoop_nat sp 0 p label sieve"
    proof -
      have "\<forall>(i, b)\<in>set (slowSteps 8 sp p label). i < length sieve"
        using inb by (auto simp: rev ps_def)
      from slow_steps[OF lab this] show ?thesis by (simp add: rev)
    qed
    also have "\<dots> = strikeLoop_nat sp 0 p wi sieve"
      unfolding label_def by (rule strikeLoop_nat_label)
    finally show ?thesis .
  next
    case False
    then have nf: "\<not> (wi mod 64 mod 8 = 0 \<and> p < loopEnd)" by (simp add: label_def)
    show ?thesis
    proof (cases "length sieve \<le> p")
      case True
      show ?thesis
        by (simp only: strikeLoop_nat_finished[OF nf True] strikeLoop_nat_finished[OF slow0 True])
    next
      case False
      obtain b m c where row: "strikes ! (wi mod 64) = (b, m, c)" by (cases "strikes ! (wi mod 64)")
      have "strikeLoop_nat sp loopEnd (p + (sp * m + c)) (nextLabel label) (sieve[p := sieve ! p AND BIT b])
          = strikeLoop_nat sp 0 (p + (sp * m + c)) (nextLabel label) (sieve[p := sieve ! p AND BIT b])"
        using nf False row "1.prems"
        by (intro "1.IH"(2)[OF label_def _ _ row[symmetric, folded label_def] refl])
           (simp_all add: label_def and_at_def)
      then show ?thesis
        by (simp only: strikeLoop_nat_strike[OF nf False row] strikeLoop_nat_strike[OF slow0 False row]
              label_def)
    qed
  qed
qed




lemma loopEnd_ok:
  "max n (0 + (sp * 28 + 27)) - (sp * 28 + 27) = 0
   \<or> max n (0 + (sp * 28 + 27)) - (sp * 28 + 27) + (sp * 28 + 27) \<le> (n::nat)"
  by (simp add: max_def)

lemma crossOff_range_nat_Cons:
  "crossOff_range_nat (prime # primes) sieve =
     (case strikeLoop_nat (getSievingPrime prime) 0 (getMultipleIndex prime) (getWheelIndex prime) sieve of
        Inl e \<Rightarrow> Inl e
      | Inr (sieve', multipleIndex', wheelIndex') \<Rightarrow>
          (case crossOff_range_nat primes sieve' of
             Inl e \<Rightarrow> Inl e
           | Inr (sieve'', primes') \<Rightarrow>
               Inr (sieve'', set_indexes multipleIndex' wheelIndex' prime # primes')))"
  using strikeLoop_nat_slow[OF loopEnd_ok[of "length sieve" "getSievingPrime prime"],
          of "getMultipleIndex prime" "getWheelIndex prime"]
  by (simp add: Let_def)

declare crossOff_range_nat.simps(2) [simp del]



section \<open>The 64-bit strike loop and the loop on unbounded offsets\<close>

subsection \<open>Addresses that do not wrap\<close>

lemma unat_ptr_add:
  fixes a :: u64
  assumes "unat a + k < 2 ^ 64"
  shows "unat (a + of_nat k) = unat a + k"
proof -
  have "k < 2 ^ 64" using assms by simp
  then have k: "unat (of_nat k :: u64) = k" by (simp add: unat_of_nat)
  have "unat a + unat (of_nat k :: u64) < 2 ^ LENGTH(64)" using assms k by simp
  then have "unat (a + of_nat k) = unat a + unat (of_nat k :: u64)"
    by (rule unat_add_lem[THEN iffD1])
  then show ?thesis using k by simp
qed

lemma ptr_less:
  fixes a :: u64
  assumes "unat a + j < 2 ^ 64" and "unat a + k < 2 ^ 64"
  shows "(a + of_nat j < a + of_nat k) = (j < k)"
  by (simp add: word_less_nat_alt unat_ptr_add[OF assms(1)] unat_ptr_add[OF assms(2)])

lemma ptr_le:
  fixes a :: u64
  assumes "unat a + j < 2 ^ 64" and "unat a + k < 2 ^ 64"
  shows "(a + of_nat j \<le> a + of_nat k) = (j \<le> k)"
  by (simp add: word_le_nat_alt unat_ptr_add[OF assms(1)] unat_ptr_add[OF assms(2)])

lemma ptr_ge_base:
  fixes a :: u64
  assumes "unat a + k < 2 ^ 64"
  shows "a \<le> a + of_nat k"
  by (simp add: word_le_nat_alt unat_ptr_add[OF assms])

lemma unat_label:
  fixes w :: u64
  shows "unat (w AND 63) = unat w mod 64"
proof -
  have m: "(63 :: u64) = mask 6" by (simp add: mask_eq_exp_minus_1)
  have "unat (w AND mask 6) = take_bit 6 (unat w)"
    by (simp only: take_bit_eq_mask[symmetric] unsigned_take_bit_eq)
  then show ?thesis by (simp add: m take_bit_eq_mod)
qed

lemma and_ptr_and_at:
  fixes sieve :: u64
  assumes "unat sieve + length bytes < 2 ^ 64" and "unat sieve + k < 2 ^ 64"
  shows "and_ptr sieve (sieve + of_nat (length bytes)) bytes (sieve + of_nat k) m
           = and_at bytes k m"
proof -
  have "k < 2 ^ 64" using assms(2) by simp
  then have k: "unat (of_nat k :: u64) = k" by (simp add: unat_of_nat)
  have 1: "sieve \<le> sieve + of_nat k" by (rule ptr_ge_base[OF assms(2)])
  have 2: "(sieve + of_nat k < sieve + of_nat (length bytes)) = (k < length bytes)"
    by (rule ptr_less[OF assms(2,1)])
  show ?thesis unfolding and_ptr_def and_at_def by (simp add: 1 2 k)
qed

subsection \<open>One turn of the 64-bit loop\<close>

lemma strikeLoop_fast:
  assumes "unat (w AND 63) mod 8 = 0 \<and> p < loopEnd"
  shows "strikeLoop sp sieve sieveEnd loopEnd p w bytes =
     (case unrolledBody (fst (unrolled ! (unat (w AND 63) div 8))) sp sieve sieveEnd p bytes of
        Inl e \<Rightarrow> Some (Inl e)
      | Inr bytes' \<Rightarrow>
          strikeLoop sp sieve sieveEnd loopEnd
            (p + (sp * 30 + of_nat (snd (unrolled ! (unat (w AND 63) div 8)))))
            (of_nat (unat (w AND 63))) bytes')"
  by (subst strikeLoop.simps) (simp only: Let_def if_P[OF assms])

lemma strikeLoop_finished:
  assumes "\<not> (unat (w AND 63) mod 8 = 0 \<and> p < loopEnd)" and "sieveEnd \<le> p"
  shows "strikeLoop sp sieve sieveEnd loopEnd p w bytes
           = Some (Inr (bytes, p - sieveEnd, of_nat (unat (w AND 63))))"
  by (subst strikeLoop.simps) (simp only: Let_def if_not_P[OF assms(1)] if_P[OF assms(2)])

lemma strikeLoop_strike:
  assumes "\<not> (unat (w AND 63) mod 8 = 0 \<and> p < loopEnd)" and "\<not> sieveEnd \<le> p"
    and "strikes ! unat (w AND 63) = (b, m, c)"
  shows "strikeLoop sp sieve sieveEnd loopEnd p w bytes =
     (case and_ptr sieve sieveEnd bytes p (BIT b) of
        Inl e \<Rightarrow> Some (Inl e)
      | Inr bytes' \<Rightarrow>
          strikeLoop sp sieve sieveEnd loopEnd (p + (sp * of_nat m + of_nat c))
            (of_nat (nextLabel (unat (w AND 63)))) bytes')"
  by (subst strikeLoop.simps)
     (simp only: Let_def if_not_P[OF assms(1)] if_not_P[OF assms(2)] assms(3) prod.case)

subsection \<open>The two loops agree\<close>

lemma unrolledBody_refines:
  fixes sieve :: u64
  assumes "length bytes = n" and "unat sieve + n < 2 ^ 64"
    and "unat sieve + po + (28 * spn + 27) < 2 ^ 64"
    and "\<forall>(m, c, b)\<in>set rows. m \<le> 28 \<and> c \<le> 27"
  shows "unrolledBody rows (of_nat spn) sieve (sieve + of_nat n) (sieve + of_nat po) bytes
           = unrolledBody_nat rows spn po bytes"
  using assms(1,4)
proof (induction rows arbitrary: bytes)
  case Nil
  show ?case by simp
next
  case (Cons r rows)
  obtain m c b where r: "r = (m, c, b)" by (cases r)
  from Cons.prems(2) have mc: "m \<le> 28" "c \<le> 27" by (simp_all add: r)
  then have "spn * m + c \<le> 28 * spn + 27" by (simp add: add_mono)
  then have k: "unat sieve + (po + (spn * m + c)) < 2 ^ 64" using assms(3) by simp
  have a: "sieve + of_nat po + (of_nat spn * of_nat m + of_nat c)
             = sieve + of_nat (po + (spn * m + c))" by simp
  have e: "and_ptr sieve (sieve + of_nat n) bytes
             (sieve + of_nat po + (of_nat spn * of_nat m + of_nat c)) (BIT b)
           = and_at bytes (po + (spn * m + c)) (BIT b)"
    unfolding a using and_ptr_and_at[of sieve bytes "po + (spn * m + c)" "BIT b"] assms(2) k
    by (simp add: Cons.prems(1))
  show ?case
  proof (cases "and_at bytes (po + (spn * m + c)) (BIT b)")
    case (Inl err)
    then show ?thesis by (simp add: r e)
  next
    case (Inr bytes')
    then have "length bytes' = n" using and_at_length Cons.prems(1) by fastforce
    from Cons.IH[OF this] Cons.prems(2) Inr show ?thesis by (simp add: r e)
  qed
qed

definition toWordResult ::
  "error + (byte list \<times> nat \<times> nat) \<Rightarrow> (error + (byte list \<times> u64 \<times> u64)) option" where
  "toWordResult r =
     Some (case r of Inl e \<Rightarrow> Inl e
           | Inr (bytes, multipleIndex, wheelIndex) \<Rightarrow>
               Inr (bytes, of_nat multipleIndex, of_nat wheelIndex))"

lemma unrolled_step_le:
  assumes "c < 8"
  shows "snd (unrolled ! c) \<le> 29"
proof -
  have a: "\<forall>c<8. snd (unrolled ! c) \<le> 29"
    unfolding all_less_8 by code_simp
  show ?thesis by (rule a[rule_format, OF assms])
qed

lemma strikes_bound:
  assumes "label < 64"
  shows "fst (snd (strikes ! label)) \<le> 6 \<and> snd (snd (strikes ! label)) \<le> 6"
proof -
  have a: "\<forall>label<64. fst (snd (strikes ! label)) \<le> 6 \<and> snd (snd (strikes ! label)) \<le> 6"
    unfolding all_less_64 by code_simp
  show ?thesis by (rule a[rule_format, OF assms])
qed

lemma strikeLoop_refines:
  fixes sieve w :: u64
  assumes "length bytes = n" and "unat sieve + n + 30 * spn + 29 < 2 ^ 64"
    and "unat sieve + po < 2 ^ 64" and "le \<le> n" and "unat w mod 64 = wi mod 64"
  shows "strikeLoop (of_nat spn) sieve (sieve + of_nat n) (sieve + of_nat le) (sieve + of_nat po)
           w bytes
         = toWordResult (strikeLoop_nat spn le po wi bytes)"
  using assms
proof (induction spn le po wi bytes arbitrary: w rule: strikeLoop_nat.induct)
  case (1 spn le po wi bytes)
  define label where "label = wi mod 64"
  have lab: "label < 64" by (simp add: label_def)
  have wl: "unat (w AND 63) = label" using "1.prems"(5) by (simp add: unat_label label_def)
  have bn: "unat sieve + n < 2 ^ 64" using "1.prems"(2) by simp
  have ble: "unat sieve + le < 2 ^ 64" using "1.prems"(2,4) by simp
  have bpo: "unat sieve + po < 2 ^ 64" by (rule "1.prems"(3))
  have pl: "(sieve + of_nat po < sieve + of_nat le) = (po < le)"
    by (rule ptr_less[OF bpo ble])
  have pe: "(sieve + of_nat n \<le> sieve + of_nat po) = (n \<le> po)"
    by (rule ptr_le[OF bn bpo])
  have ul: "unat (of_nat label :: u64) mod 64 = label mod 64"
    using lab by (simp add: unat_of_nat)
  show ?case
  proof (cases "label mod 8 = 0 \<and> po < le")
    case True
    then have fw: "unat (w AND 63) mod 8 = 0 \<and> sieve + of_nat po < sieve + of_nat le"
      by (simp add: wl pl)
    have fn: "wi mod 64 mod 8 = 0 \<and> po < le" using True by (simp add: label_def)
    have c8: "label div 8 < 8" using lab by simp
    have rows: "\<forall>(m, c, b)\<in>set (fst (unrolled ! (label div 8))). m \<le> 28 \<and> c \<le> 27"
      using unrolled_rows_bound[OF c8] by auto
    have "unat sieve + po + (28 * spn + 27) < 2 ^ 64" using True "1.prems"(2,4) by simp
    from unrolledBody_refines[OF "1.prems"(1) bn this rows]
    have ub: "unrolledBody (fst (unrolled ! (label div 8))) (of_nat spn) sieve (sieve + of_nat n)
                (sieve + of_nat po) bytes
              = unrolledBody_nat (fst (unrolled ! (label div 8))) spn po bytes" .
    show ?thesis
    proof (cases "unrolledBody_nat (fst (unrolled ! (label div 8))) spn po bytes")
      case (Inl err)
      show ?thesis
        by (simp add: strikeLoop_fast[OF fw] strikeLoop_nat_fast[OF fn] wl ub Inl
              label_def[symmetric] toWordResult_def)
    next
      case (Inr bytes')
      have l': "length bytes' = n"
        using unrolledBody_nat_length[OF Inr] "1.prems"(1) by simp
      have r29: "snd (unrolled ! (label div 8)) \<le> 29" by (rule unrolled_step_le[OF c8])
      have bp': "unat sieve + (po + (spn * 30 + snd (unrolled ! (label div 8)))) < 2 ^ 64"
        using True "1.prems"(2,4) r29 by simp
      have ih: "strikeLoop (of_nat spn) sieve (sieve + of_nat n) (sieve + of_nat le)
                  (sieve + of_nat (po + (spn * 30 + snd (unrolled ! (label div 8)))))
                  (of_nat label) bytes'
                = toWordResult (strikeLoop_nat spn le
                    (po + (spn * 30 + snd (unrolled ! (label div 8)))) label bytes')"
        using True Inr
        by (intro "1.IH"(1)[OF label_def _ _ l' "1.prems"(2) bp' "1.prems"(4) ul]) simp_all
      have a: "sieve + of_nat po + (of_nat spn * 30 + of_nat (snd (unrolled ! (label div 8))))
               = sieve + of_nat (po + (spn * 30 + snd (unrolled ! (label div 8))))" by simp
      show ?thesis
        by (simp only: strikeLoop_fast[OF fw] strikeLoop_nat_fast[OF fn] wl ub Inr sum.case
              label_def[symmetric] a ih)
    qed
  next
    case False
    then have nw: "\<not> (unat (w AND 63) mod 8 = 0 \<and> sieve + of_nat po < sieve + of_nat le)"
      by (simp add: wl pl)
    have nn: "\<not> (wi mod 64 mod 8 = 0 \<and> po < le)" using False by (simp add: label_def)
    show ?thesis
    proof (cases "n \<le> po")
      case True
      then have fw: "sieve + of_nat n \<le> sieve + of_nat po" by (simp add: pe)
      have fn: "length bytes \<le> po" using True "1.prems"(1) by simp
      have x: "(of_nat (po - n) :: u64) = of_nat po - of_nat n"
        using True by (rule of_nat_diff)
      show ?thesis
        by (simp add: strikeLoop_finished[OF nw fw] strikeLoop_nat_finished[OF nn fn] wl x[symmetric]
              label_def[symmetric] toWordResult_def "1.prems"(1))
    next
      case False
      then have sw: "\<not> sieve + of_nat n \<le> sieve + of_nat po" by (simp add: pe)
      have sn: "\<not> length bytes \<le> po" using False "1.prems"(1) by simp
      obtain b m c where row: "strikes ! label = (b, m, c)" by (cases "strikes ! label")
      have roww: "strikes ! unat (w AND 63) = (b, m, c)" by (simp add: wl row)
      have rown: "strikes ! (wi mod 64) = (b, m, c)" by (simp add: label_def[symmetric] row)
      from strikes_bound[OF lab] row have mc: "m \<le> 6" "c \<le> 6" by simp_all
      then have "spn * m + c \<le> 6 * spn + 6" by (simp add: add_mono)
      then have bp': "unat sieve + (po + (spn * m + c)) < 2 ^ 64"
        using False "1.prems"(2) by simp
      define bytes' where "bytes' = bytes[po := bytes ! po AND BIT b]"
      have l': "length bytes' = n" using "1.prems"(1) by (simp add: bytes'_def)
      have aa: "and_at bytes po (BIT b) = Inr bytes'"
        using sn by (simp add: and_at_def bytes'_def)
      have ap: "and_ptr sieve (sieve + of_nat n) bytes (sieve + of_nat po) (BIT b) = Inr bytes'"
        using and_ptr_and_at[of sieve bytes po "BIT b"] bn bpo aa "1.prems"(1) by simp
      have nl: "unat (of_nat (nextLabel label) :: u64) mod 64 = nextLabel label mod 64"
        using nextLabel_less[OF lab] by (simp add: unat_of_nat)
      have ih: "strikeLoop (of_nat spn) sieve (sieve + of_nat n) (sieve + of_nat le)
                  (sieve + of_nat (po + (spn * m + c))) (of_nat (nextLabel label)) bytes'
                = toWordResult (strikeLoop_nat spn le (po + (spn * m + c)) (nextLabel label) bytes')"
        using nn sn aa
        by (intro "1.IH"(2)[OF label_def _ _ row[symmetric] refl _ l' "1.prems"(2) bp'
              "1.prems"(4) nl]) (simp_all add: label_def)
      have a: "sieve + of_nat po + (of_nat spn * of_nat m + of_nat c)
               = sieve + of_nat (po + (spn * m + c))" by simp
      show ?thesis
        by (simp only: strikeLoop_strike[OF nw sw roww] strikeLoop_nat_strike[OF nn sn rown]
              ap sum.case wl a ih bytes'_def[symmetric] label_def[symmetric])
    qed
  qed
qed

subsection \<open>The loop over the primes\<close>

text \<open>
  No address that the strike loop computes for a prime in a range of \<open>n\<close> bytes at \<open>sieve\<close>
  passes \<open>2 ^ 64\<close>: the pointer \<open>&sieve[multipleIndex]\<close> does not, and neither does a
  pointer that is less than a revolution of the wheel, \<open>30 * sievingPrime + 29\<close> bytes,
  beyond the end of the range.
\<close>

definition noWrap :: "u64 \<Rightarrow> nat \<Rightarrow> u64 SievingPrime \<Rightarrow> bool" where
  "noWrap sieve n prime =
     (unat sieve + n + 30 * unat (getSievingPrime prime) + 29 < 2 ^ 64
      \<and> unat sieve + unat (getMultipleIndex prime) < 2 ^ 64)"

definition toNat :: "u64 SievingPrime \<Rightarrow> nat SievingPrime" where
  "toNat prime =
     \<lparr>getSievingPrime = unat (getSievingPrime prime),
      getMultipleIndex = unat (getMultipleIndex prime),
      getWheelIndex = unat (getWheelIndex prime)\<rparr>"

definition toWord :: "nat SievingPrime \<Rightarrow> u64 SievingPrime" where
  "toWord prime =
     \<lparr>getSievingPrime = of_nat (getSievingPrime prime),
      getMultipleIndex = of_nat (getMultipleIndex prime),
      getWheelIndex = of_nat (getWheelIndex prime)\<rparr>"

lemma loopEnd_word:
  fixes sieve :: u64
  assumes "unat sieve + n + mld < 2 ^ 64"
  shows "max (sieve + of_nat n) (sieve + of_nat mld) - of_nat mld
           = sieve + of_nat (max n (0 + mld) - mld)"
proof -
  have bn: "unat sieve + n < 2 ^ 64" and bm: "unat sieve + mld < 2 ^ 64"
    using assms by simp_all
  have m: "max (sieve + of_nat n) (sieve + of_nat mld) = sieve + of_nat (max n mld)"
    unfolding max_def ptr_le[OF bn bm] by simp
  have x: "(of_nat (max n mld - mld) :: u64) = of_nat (max n mld) - of_nat mld"
    by (rule of_nat_diff) simp
  show ?thesis unfolding m by (simp add: x)
qed

lemma strikeLoop_nat_bound:
  assumes "strikeLoop_nat sp 0 p wi sieve = Inr (sieve', mi, wi')"
  shows "mi + length sieve \<le> max p (length sieve + 6 * sp + 6) \<and> wi' < 64"
  using assms
proof (induction sp "0::nat" p wi sieve rule: strikeLoop_nat.induct)
  case (1 sp p wi sieve)
  define label where "label = wi mod 64"
  have lab: "label < 64" by (simp add: label_def)
  have slow0: "\<not> (wi mod 64 mod 8 = 0 \<and> p < 0)" by simp
  show ?case
  proof (cases "length sieve \<le> p")
    case True
    have "strikeLoop_nat sp 0 p wi sieve = Inr (sieve, p - length sieve, wi mod 64)"
      by (rule strikeLoop_nat_finished[OF slow0 True])
    with "1.prems" have "mi = p - length sieve \<and> wi' = wi mod 64" by auto
    then show ?thesis using True by simp
  next
    case False
    obtain b m c where row: "strikes ! label = (b, m, c)" by (cases "strikes ! label")
    have rown: "strikes ! (wi mod 64) = (b, m, c)" by (simp add: label_def[symmetric] row)
    from strikes_bound[OF lab] row have mc: "m \<le> 6" "c \<le> 6" by simp_all
    then have s: "sp * m + c \<le> 6 * sp + 6" by (simp add: add_mono)
    define sieve1 where "sieve1 = sieve[p := sieve ! p AND BIT b]"
    have l1: "length sieve1 = length sieve" by (simp add: sieve1_def)
    have aa: "and_at sieve p (BIT b) = Inr sieve1"
      using False by (simp add: and_at_def sieve1_def)
    have e: "strikeLoop_nat sp 0 (p + (sp * m + c)) (nextLabel label) sieve1 = Inr (sieve', mi, wi')"
      using "1.prems" strikeLoop_nat_strike[OF slow0 False rown, of sp]
      by (simp add: sieve1_def label_def)
    have "mi + length sieve1 \<le> max (p + (sp * m + c)) (length sieve1 + 6 * sp + 6) \<and> wi' < 64"
      using False aa e
      by (intro "1.hyps"(2)[OF label_def _ _ row[symmetric] refl]) (simp_all add: label_def)
    then show ?thesis using False s l1 by (simp add: max_def split: if_splits)
  qed
qed

lemma toWord_toNat: "toWord (toNat prime) = prime"
  by (simp add: toWord_def toNat_def)

text \<open>
  For primes whose addresses do not wrap, the loop over the primes of the code returns what
  the loop on unbounded offsets returns; what it stores in a prime does not wrap in the
  range that follows.
\<close>

lemma crossOff_range_refines:
  fixes sieve :: u64
  assumes "\<forall>prime\<in>set primes. noWrap sieve (n + k) prime" and "length bytes = n"
  shows "\<exists>bytes' primes'.
           crossOff_range_nat (map toNat primes) bytes = Inr (bytes', primes')
         \<and> crossOff_range primes sieve (sieve + of_nat n) bytes = Some (Inr (bytes', map toWord primes'))
         \<and> length bytes' = n \<and> length primes' = length primes
         \<and> map toNat (map toWord primes') = primes'
         \<and> (\<forall>prime\<in>set (map toWord primes'). noWrap (sieve + of_nat n) k prime)"
  using assms
proof (induction primes arbitrary: bytes)
  case Nil
  show ?case using Nil.prems by simp
next
  case (Cons prime primes)
  define sp where "sp = getSievingPrime prime"
  define spn where "spn = unat sp"
  define mi where "mi = unat (getMultipleIndex prime)"
  define wi where "wi = unat (getWheelIndex prime)"
  define mld where "mld = spn * 28 + 27"
  define le where "le = max n (0 + mld) - mld"
  have nw: "unat sieve + (n + k) + 30 * spn + 29 < 2 ^ 64" "unat sieve + mi < 2 ^ 64"
    using Cons.prems(1) by (simp_all add: noWrap_def sp_def spn_def mi_def)
  have b1: "unat sieve + n + 30 * spn + 29 < 2 ^ 64" using nw(1) by simp
  have b2: "unat sieve + n + mld < 2 ^ 64" using nw(1) by (simp add: mld_def)
  have b3: "unat sieve + n < 2 ^ 64" using nw(1) by simp
  have lele: "le \<le> n" by (simp add: le_def max_def)
  have spw: "of_nat spn = sp" by (simp add: spn_def)
  have miw: "of_nat mi = getMultipleIndex prime" by (simp add: mi_def)
  have mldw: "sp * 28 + 27 = of_nat mld" by (simp add: mld_def spw[symmetric])
  have lew: "max (sieve + of_nat n) (sieve + (sp * 28 + 27)) - (sp * 28 + 27) = sieve + of_nat le"
    unfolding mldw le_def by (rule loopEnd_word[OF b2])
  have ok: "le = 0 \<or> le + (spn * 28 + 27) \<le> length bytes"
    unfolding le_def mld_def Cons.prems(2) by (rule loopEnd_ok)
  obtain bytes1 mi1 wi1 where
    s0: "strikeLoop_nat spn 0 mi wi bytes = Inr (bytes1, mi1, wi1)"
    and l1: "length bytes1 = length bytes"
    using strikeLoop_nat_safe[of 0 spn bytes mi wi] by auto
  have s1: "strikeLoop_nat spn le mi wi bytes = Inr (bytes1, mi1, wi1)"
    using strikeLoop_nat_slow[OF ok, of mi wi] s0 by simp
  from strikeLoop_nat_bound[OF s0]
  have bd: "mi1 + n \<le> max mi (n + 6 * spn + 6)" "wi1 < 64"
    by (simp_all add: Cons.prems(2))
  have sw: "strikeLoop sp sieve (sieve + of_nat n) (sieve + of_nat le)
              (sieve + getMultipleIndex prime) (getWheelIndex prime) bytes
            = Some (Inr (bytes1, of_nat mi1, of_nat wi1))"
  proof -
    have "unat (getWheelIndex prime) mod 64 = wi mod 64" by (simp add: wi_def)
    from strikeLoop_refines[OF Cons.prems(2) b1 nw(2) lele this]
    show ?thesis by (simp add: spw miw s1 toWordResult_def)
  qed
  have rest: "\<forall>prime\<in>set primes. noWrap sieve (n + k) prime" using Cons.prems(1) by simp
  have l1n: "length bytes1 = n" using l1 Cons.prems(2) by simp
  from Cons.IH[OF rest l1n] obtain bytes2 primes2 where
    r: "crossOff_range_nat (map toNat primes) bytes1 = Inr (bytes2, primes2)"
    and rw: "crossOff_range primes sieve (sieve + of_nat n) bytes1
               = Some (Inr (bytes2, map toWord primes2))"
    and l2: "length bytes2 = n" "length primes2 = length primes"
    and tn: "map toNat (map toWord primes2) = primes2"
    and nw2: "\<forall>prime\<in>set (map toWord primes2). noWrap (sieve + of_nat n) k prime"
    by blast
  define prime1 where "prime1 = set_indexes mi1 wi1 (toNat prime)"
  have g: "getSievingPrime (toNat prime) = spn" "getMultipleIndex (toNat prime) = mi"
      "getWheelIndex (toNat prime) = wi"
    by (simp_all add: toNat_def spn_def sp_def mi_def wi_def)
  have n1: "crossOff_range_nat (map toNat (prime # primes)) bytes = Inr (bytes2, prime1 # primes2)"
    by (simp add: crossOff_range_nat_Cons g s0 r prime1_def)
  have w1: "toWord prime1 = set_indexes (of_nat mi1) (of_nat wi1) prime"
    by (simp add: prime1_def toWord_def toNat_def set_indexes_def)
  have n2: "crossOff_range (prime # primes) sieve (sieve + of_nat n) bytes
              = Some (Inr (bytes2, map toWord (prime1 # primes2)))"
    by (simp add: Let_def sp_def[symmetric] lew sw rw w1)
  have mi1b: "mi1 < 2 ^ 64"
  proof -
    have "mi1 + n \<le> max mi (n + 6 * spn + 6)" by (rule bd(1))
    also have "\<dots> < 2 ^ 64" using nw by (simp add: max_def)
    finally show ?thesis by simp
  qed
  have spb: "spn < 2 ^ 64" using nw(1) by simp
  have u: "unat (of_nat mi1 :: u64) = mi1" "unat (of_nat wi1 :: u64) = wi1"
    using mi1b bd(2) by (simp_all add: unat_of_nat)
  have t1: "toNat (toWord prime1) = prime1"
    by (simp add: prime1_def toWord_def toNat_def set_indexes_def u)
  have us: "unat (sieve + of_nat n) = unat sieve + n" by (rule unat_ptr_add[OF b3])
  have "unat sieve + (mi1 + n) < 2 ^ 64"
  proof -
    have "unat sieve + (mi1 + n) \<le> unat sieve + max mi (n + 6 * spn + 6)"
      using bd(1) by simp
    also have "\<dots> < 2 ^ 64" using nw by (simp add: max_def)
    finally show ?thesis .
  qed
  then have n3: "noWrap (sieve + of_nat n) k (toWord prime1)"
    using nw(1) by (simp add: noWrap_def w1 set_indexes_def us u sp_def[symmetric] spn_def[symmetric])
  show ?case
    using n1 n2 l2 tn t1 n3 nw2 by simp
qed

section \<open>Properties of the inner crossOff\<close>

lemma noWrap_mono: "noWrap sieve (n + k) prime \<Longrightarrow> noWrap sieve n prime"
  by (simp add: noWrap_def)

lemma strikeLoop_slow:
  assumes "\<not> (unat (w AND 63) mod 8 = 0 \<and> p < loopEnd)"
  shows "strikeLoop sp sieve sieveEnd loopEnd p w bytes =
     (if sieveEnd \<le> p then Some (Inr (bytes, p - sieveEnd, of_nat (unat (w AND 63))))
      else
        (case strikes ! unat (w AND 63) of (b, m, c) \<Rightarrow>
           (case and_ptr sieve sieveEnd bytes p (BIT b) of
              Inl e \<Rightarrow> Some (Inl e)
            | Inr bytes' \<Rightarrow>
                strikeLoop sp sieve sieveEnd loopEnd (p + (sp * of_nat m + of_nat c))
                  (of_nat (nextLabel (unat (w AND 63)))) bytes')))"
  by (subst strikeLoop.simps) (simp only: Let_def if_not_P[OF assms])

text \<open>
  Claim C8, as stated, fails for a stored prime whose addresses wrap: with
  \<open>multipleIndex = 2 ^ 64 - 1\<close> the pointer \<open>&sieve[multipleIndex]\<close> is \<open>sieve - 1\<close>, which is
  below \<open>sieveEnd\<close>, so \<open>CHECK_FINISHED\<close> lets the strike of label 1 write one byte before
  the range.
\<close>

theorem crossOff_range_out_of_bounds:
  "crossOff_range
     [\<lparr>getSievingPrime = 0, getMultipleIndex = 0xFFFFFFFFFFFFFFFF, getWheelIndex = 1\<rparr>]
     0x1000 0x1001 [0xff]
   = Some (Inl OutOfBounds)"
  by (simp add: Let_def strikeLoop_slow unat_label strikes_def and_ptr_def)

text \<open>
  Claim C8, amended.  For stored primes none of whose addresses wraps in the range (the
  end of the range plus \<open>30 * sievingPrime + 29\<close>, and \<open>&sieve[multipleIndex]\<close>, are below
  \<open>2 ^ 64\<close>), whatever their \<open>wheelIndex\<close>, the inner \<open>crossOff\<close> returns without an access
  outside the range: no write of the model, each of which is refused outside the range, is
  refused.  In particular the eight writes of a turn of an unrolled loop, taken only while
  \<open>p < loopEnd = max(sieveEnd, sieve + maxLoopDist) - maxLoopDist\<close>, are inside the range.
\<close>

theorem crossOff_range_in_bounds:
  fixes sieve :: u64
  assumes "\<forall>prime\<in>set primes. noWrap sieve (length bytes) prime"
  shows "(\<exists>bytes' primes'.
            crossOff_range primes sieve (sieve + of_nat (length bytes)) bytes
              = Some (Inr (bytes', primes'))
          \<and> length bytes' = length bytes \<and> length primes' = length primes)
       \<and> (\<forall>prime\<in>set primes. \<forall>c<8. \<forall>(m, k, b)\<in>set (fst (unrolled ! c)). \<forall>p.
            sieve \<le> p
            \<and> p < max (sieve + of_nat (length bytes)) (sieve + (getSievingPrime prime * 28 + 27))
                    - (getSievingPrime prime * 28 + 27)
            \<longrightarrow> sieve \<le> p + (getSievingPrime prime * of_nat m + of_nat k)
              \<and> p + (getSievingPrime prime * of_nat m + of_nat k) < sieve + of_nat (length bytes))"
proof
  have "\<forall>prime\<in>set primes. noWrap sieve (length bytes + 0) prime" using assms by simp
  from crossOff_range_refines[OF this refl]
  show "\<exists>bytes' primes'.
            crossOff_range primes sieve (sieve + of_nat (length bytes)) bytes
              = Some (Inr (bytes', primes'))
          \<and> length bytes' = length bytes \<and> length primes' = length primes"
    by auto
  show "\<forall>prime\<in>set primes. \<forall>c<8. \<forall>(m, k, b)\<in>set (fst (unrolled ! c)). \<forall>p.
            sieve \<le> p
            \<and> p < max (sieve + of_nat (length bytes)) (sieve + (getSievingPrime prime * 28 + 27))
                    - (getSievingPrime prime * 28 + 27)
            \<longrightarrow> sieve \<le> p + (getSievingPrime prime * of_nat m + of_nat k)
              \<and> p + (getSievingPrime prime * of_nat m + of_nat k) < sieve + of_nat (length bytes)"
  proof (intro ballI allI impI, clarify)
    fix prime c m k b p
    assume pr: "prime \<in> set primes" and c: "c < 8"
      and row: "(m, k, b) \<in> set (fst (unrolled ! c))" and lo: "sieve \<le> p"
      and hi: "p < max (sieve + of_nat (length bytes)) (sieve + (getSievingPrime prime * 28 + 27))
                    - (getSievingPrime prime * 28 + 27)"
    define n where "n = length bytes"
    define sp where "sp = getSievingPrime prime"
    define spn where "spn = unat sp"
    define mld where "mld = spn * 28 + 27"
    define le where "le = max n (0 + mld) - mld"
    define po where "po = unat p - unat sieve"
    have nw: "unat sieve + n + 30 * spn + 29 < 2 ^ 64"
      using assms pr by (simp add: noWrap_def sp_def spn_def n_def)
    have b2: "unat sieve + n + mld < 2 ^ 64" using nw by (simp add: mld_def)
    have bn: "unat sieve + n < 2 ^ 64" using nw by simp
    have "le \<le> n" by (simp add: le_def max_def)
    then have ble: "unat sieve + le < 2 ^ 64" using bn by simp
    have spw: "of_nat spn = sp" by (simp add: spn_def)
    have mldw: "sp * 28 + 27 = of_nat mld" by (simp add: mld_def spw[symmetric])
    have lew: "max (sieve + of_nat n) (sieve + (sp * 28 + 27)) - (sp * 28 + 27) = sieve + of_nat le"
      unfolding mldw le_def by (rule loopEnd_word[OF b2])
    have up: "unat sieve + po = unat p" using lo by (simp add: po_def word_le_nat_alt)
    have "unat p < 2 ^ 64" using unsigned_less[of p] by simp
    then have bpo: "unat sieve + po < 2 ^ 64" using up by simp
    have pw: "p = sieve + of_nat po"
    proof -
      have "unat (sieve + of_nat po) = unat p" using unat_ptr_add[OF bpo] up by simp
      then show ?thesis by (simp add: word_unat_eq_iff)
    qed
    have "p < sieve + of_nat le"
      using hi unfolding n_def[symmetric] sp_def[symmetric] lew .
    then have "sieve + of_nat po < sieve + of_nat le" using pw by simp
    then have "po < le" using ptr_less[OF bpo ble] by simp
    then have pm: "po + mld < n" by (simp add: le_def max_def split: if_splits)
    from unrolled_rows_bound[OF c row] have "m \<le> 28" "k \<le> 27" by simp_all
    then have "spn * m + k \<le> mld" by (simp add: mld_def add_mono)
    then have q: "po + (spn * m + k) < n" using pm by simp
    then have bq: "unat sieve + (po + (spn * m + k)) < 2 ^ 64" using bn by simp
    have a: "p + (sp * of_nat m + of_nat k) = sieve + of_nat (po + (spn * m + k))"
      by (simp add: pw spw[symmetric])
    show "sieve \<le> p + (sp * of_nat m + of_nat k)
        \<and> p + (sp * of_nat m + of_nat k) < sieve + of_nat n"
      unfolding a using ptr_ge_base[OF bq] ptr_less[OF bq bn] q by simp
  qed
qed

theorem crossOff_range_in_bounds_witness:
  "noWrap 0x1000 (length (replicate 100 (0xff :: byte)))
     \<lparr>getSievingPrime = 1, getMultipleIndex = 0, getWheelIndex = 8\<rparr>
   \<and> (\<exists>bytes' primes'.
        crossOff_range [\<lparr>getSievingPrime = 1, getMultipleIndex = 0, getWheelIndex = 8\<rparr>]
          0x1000 (0x1000 + of_nat (length (replicate 100 (0xff :: byte)))) (replicate 100 0xff)
          = Some (Inr (bytes', primes'))
        \<and> length bytes' = length (replicate 100 (0xff :: byte))
        \<and> length primes'
            = length [\<lparr>getSievingPrime = 1, getMultipleIndex = 0, getWheelIndex = (8 :: u64)\<rparr>])"
proof -
  have h: "\<forall>prime\<in>set [\<lparr>getSievingPrime = 1, getMultipleIndex = 0, getWheelIndex = (8 :: u64)\<rparr>].
      noWrap 0x1000 (length (replicate 100 (0xff :: byte))) prime"
    by (simp add: noWrap_def)
  from crossOff_range_in_bounds[OF h, THEN conjunct1] h show ?thesis by simp
qed




section \<open>Properties of PreSieve::init\<close>




section \<open>What the strikes mean\<close>
























section \<open>The state that crossOff saves\<close>




end
